theory Spec2Isabelle
  imports Main "HOL-Library.Word" "HOL-Library.Multiset"
begin

unbundle bit_operations_syntax

section \<open>The MPMC pointer ring of \<^verbatim>\<open>mpmc_ptr_ring.h\<close>\<close>

text \<open>
  The header implements a fixed-capacity ring of \<^verbatim>\<open>void *\<close> values with three untrimmed
  index counters. This theory embeds its functions as HOL functions over an explicit kernel
  state (the slot arrays that are live in the allocator, and the ring structure), in the
  order of the header. Counters and pointers are 64-bit words (\<^verbatim>\<open>size_t\<close>, \<^verbatim>\<open>atomic_long_t\<close>
  and \<^verbatim>\<open>void *\<close> of a 64-bit kernel): \<open>+\<close> and \<open>-\<close> wrap around as the C arithmetic does.
  Memory barriers (\<^verbatim>\<open>mb\<close>, \<^verbatim>\<open>rmb\<close>, \<^verbatim>\<open>smp_mb__before_atomic\<close>, \<^verbatim>\<open>cpu_relax\<close>) have no
  effect on a sequentially consistent state and are left out.
\<close>

subsection \<open>Values, errors and the kernel state\<close>

type_synonym size_t = "64 word"
type_synonym ptr = "64 word"

abbreviation NULL :: ptr where
  "NULL \<equiv> 0"

text \<open>
  Modelled from the spec: the errno constants are not part of the header. The spec's
  \<open>InvalidCapacity\<close>, \<open>AllocationFailure\<close> and \<open>RingFull\<close> are the returns \<^verbatim>\<open>-EINVAL\<close>,
  \<^verbatim>\<open>-ENOMEM\<close> and \<^verbatim>\<open>-ENOSPC\<close> of the source, with the values of Linux.
\<close>

definition EINVAL :: int where
  "EINVAL = 22"

definition ENOMEM :: int where
  "ENOMEM = 12"

definition ENOSPC :: int where
  "ENOSPC = 28"

text \<open>
  \<^verbatim>\<open>struct mpmc_ptr_ring\<close>. The field \<^verbatim>\<open>size\<close> is called \<open>size_r\<close> here (the name
  \<open>size\<close> is taken in HOL); \<open>queue\<close> is the address of the slot array.
\<close>

record mpmc_ptr_ring =
  queue :: ptr
  size_r :: size_t
  consumer_head :: size_t
  producer_head :: size_t
  producer_tail :: size_t

text \<open>
  The allocator's live slot arrays, by base address. An address that is not in the
  domain is not allocated (never allocated, or freed).
\<close>

type_synonym kheap = "ptr \<rightharpoonup> ptr list"

record kstate =
  heap :: kheap
  ring :: mpmc_ptr_ring

text \<open>
  A call either returns, or its behaviour is undefined in C (an access through a null or
  dangling \<^verbatim>\<open>queue\<close>, or outside the array, or a double free). A call that never
  returns is the value \<open>None\<close> of the enclosing option.
\<close>

datatype 'a result = Ok 'a | Fault

subsection \<open>Host primitives\<close>

text \<open>
  Modelled from the spec: \<^verbatim>\<open>is_power_of_2\<close> is not part of the header. The spec asks init
  to verify that the capacity is a power of two; the test is the one of \<^verbatim>\<open>linux/log2.h\<close>,
  \<^verbatim>\<open>n != 0 && ((n & (n - 1)) == 0)\<close>, which \<open>is_power_of_2_iff\<close> below shows to hold
  exactly of the powers of two.
\<close>

definition is_power_of_2 :: "size_t \<Rightarrow> bool" where
  "is_power_of_2 n \<longleftrightarrow> n \<noteq> 0 \<and> n AND (n - 1) = 0"

text \<open>
  Modelled from the spec: the atomic primitives are not part of the header. The spec asks
  for an atomic integer with load, store, increment and a compare-and-swap that returns
  the value it found. A load (\<^verbatim>\<open>atomic_long_read\<close>) is a read of the field and a store
  (\<^verbatim>\<open>atomic_long_set\<close>) an update of it. \<^verbatim>\<open>atomic_long_cmpxchg(v, old, new)\<close> on the cell
  value \<open>v\<close> gives the new cell value and the value returned (the cell's value before the
  call).
\<close>

definition atomic_long_cmpxchg :: "size_t \<Rightarrow> size_t \<Rightarrow> size_t \<Rightarrow> size_t \<times> size_t" where
  "atomic_long_cmpxchg v old new = (if v = old then new else v, v)"

text \<open>
  \<^verbatim>\<open>READ_ONCE(q[i])\<close> and \<^verbatim>\<open>WRITE_ONCE(q[i], x)\<close> on the slot array at address \<open>q\<close>;
  \<open>None\<close> where C leaves the access undefined (no live array at \<open>q\<close>, or \<open>i\<close> outside
  it).
\<close>

definition READ_ONCE :: "kheap \<Rightarrow> ptr \<Rightarrow> size_t \<Rightarrow> ptr option" where
  "READ_ONCE h q i =
     (case h q of
        None \<Rightarrow> None
      | Some xs \<Rightarrow> if unat i < length xs then Some (xs ! unat i) else None)"

definition WRITE_ONCE :: "kheap \<Rightarrow> ptr \<Rightarrow> size_t \<Rightarrow> ptr \<Rightarrow> kheap option" where
  "WRITE_ONCE h q i x =
     (case h q of
        None \<Rightarrow> None
      | Some xs \<Rightarrow> if unat i < length xs then Some (h(q \<mapsto> xs[unat i := x])) else None)"

text \<open>
  Modelled from the spec: the host allocator (\<^verbatim>\<open>kcalloc\<close>, \<^verbatim>\<open>kfree\<close>) is not part of the
  header. The spec asks for "allocate N contiguous zeroed slots" and "release slots",
  both synchronous, the allocation fallible. The address the host would hand out is the
  parameter \<open>a\<close>: \<open>NULL\<close> is a failed allocation, and so is an address that is still live.
  \<^verbatim>\<open>kfree(NULL)\<close> does nothing; freeing an address that is not live is undefined.
\<close>

definition kcalloc :: "ptr \<Rightarrow> kheap \<Rightarrow> size_t \<Rightarrow> kheap \<times> ptr" where
  "kcalloc a h n =
     (if a = NULL \<or> h a \<noteq> None then (h, NULL)
      else (h(a \<mapsto> replicate (unat n) NULL), a))"

definition kfree :: "kheap \<Rightarrow> ptr \<Rightarrow> kheap option" where
  "kfree h q =
     (if q = NULL then Some h
      else case h q of None \<Rightarrow> None | Some xs \<Rightarrow> Some (h(q := None)))"

subsection \<open>\<^verbatim>\<open>mpmc_ptr_ring_empty\<close>\<close>

definition mpmc_ptr_ring_empty :: "kstate \<Rightarrow> bool" where
  "mpmc_ptr_ring_empty s =
     (let ptail = producer_tail (ring s);
          chead = consumer_head (ring s)
      in chead = ptail)"

subsection \<open>\<^verbatim>\<open>mpmc_ptr_ring_produce\<close>\<close>

text \<open>
  The claim loop \<^verbatim>\<open>for (;;)\<close> of produce, entered with the candidate index \<open>p\<close>. It
  ends with the ring and \<open>Some p\<close> when the compare-and-swap on \<^verbatim>\<open>producer_head\<close> took
  index \<open>p\<close>, and with \<open>None\<close> at \<^verbatim>\<open>return -ENOSPC\<close>. On a failed compare-and-swap the
  source loops without reading \<^verbatim>\<open>producer_head\<close> again.
\<close>

partial_function (option) produce_claim ::
  "mpmc_ptr_ring \<Rightarrow> size_t \<Rightarrow> (mpmc_ptr_ring \<times> size_t option) option"
where
  "produce_claim r p =
     (let mask = size_r r - 1;
          c = consumer_head r
      in if p - c < mask then
           (case atomic_long_cmpxchg (producer_head r) p (p + 1) of
              (v, old) \<Rightarrow>
                if old = p then Some (r\<lparr>producer_head := v\<rparr>, Some p)
                else produce_claim (r\<lparr>producer_head := v\<rparr>) p)
         else
           (let new_p = producer_head r
            in if new_p = p then Some (r, None)
               else produce_claim r new_p))"

text \<open>
  \<^verbatim>\<open>while (atomic_long_read(&r->producer_tail) != p) cpu_relax();\<close>
  With no other thread running, nothing changes \<^verbatim>\<open>producer_tail\<close> during the wait.
\<close>

partial_function (option) produce_wait :: "mpmc_ptr_ring \<Rightarrow> size_t \<Rightarrow> unit option" where
  "produce_wait r p = (if producer_tail r \<noteq> p then produce_wait r p else Some ())"

definition mpmc_ptr_ring_produce :: "kstate \<Rightarrow> ptr \<Rightarrow> (kstate \<times> int) result option" where
  "mpmc_ptr_ring_produce s x =
     (let mask = size_r (ring s) - 1;
          p = producer_head (ring s)
      in case produce_claim (ring s) p of
           None \<Rightarrow> None
         | Some (r, None) \<Rightarrow> Some (Ok (s\<lparr>ring := r\<rparr>, - ENOSPC))
         | Some (r, Some p) \<Rightarrow>
             (case WRITE_ONCE (heap s) (queue r) (p AND mask) x of
                None \<Rightarrow> Some Fault
              | Some h \<Rightarrow>
                  (case produce_wait r p of
                     None \<Rightarrow> None
                   | Some _ \<Rightarrow>
                       Some (Ok (\<lparr>heap = h, ring = r\<lparr>producer_tail := p + 1\<rparr>\<rparr>, 0)))))"

subsection \<open>\<^verbatim>\<open>mpmc_ptr_ring_consume\<close>\<close>

partial_function (option) mpmc_ptr_ring_consume :: "kstate \<Rightarrow> (kstate \<times> ptr) result option"
where
  "mpmc_ptr_ring_consume s =
     (let mask = size_r (ring s) - 1;
          c = consumer_head (ring s);
          p = producer_tail (ring s)
      in if p = c then Some (Ok (s, NULL))
         else
           (case READ_ONCE (heap s) (queue (ring s)) (c AND mask) of
              None \<Rightarrow> Some Fault
            | Some element \<Rightarrow>
                (case atomic_long_cmpxchg (consumer_head (ring s)) c (c + 1) of
                   (v, old_c) \<Rightarrow>
                     if old_c = c then Some (Ok (s\<lparr>ring := (ring s)\<lparr>consumer_head := v\<rparr>\<rparr>, element))
                     else mpmc_ptr_ring_consume (s\<lparr>ring := (ring s)\<lparr>consumer_head := v\<rparr>\<rparr>))))"

subsection \<open>\<^verbatim>\<open>mpmc_ptr_ring_init\<close>\<close>

text \<open>
  The parameter \<^verbatim>\<open>int size\<close> is a signed 32-bit value; it is converted to \<^verbatim>\<open>size_t\<close>
  (sign-extended) for \<^verbatim>\<open>is_power_of_2\<close>, for \<^verbatim>\<open>r->size\<close> and for \<^verbatim>\<open>kcalloc\<close>.
  \<^verbatim>\<open>WARN_ONCE\<close> returns its condition; the warning it prints is not part of the state.
  The result is the state and the returned \<^verbatim>\<open>int\<close>.
\<close>

definition mpmc_ptr_ring_init :: "ptr \<Rightarrow> kstate \<Rightarrow> 32 word \<Rightarrow> kstate \<times> int" where
  "mpmc_ptr_ring_init a s sz =
     (if \<not> is_power_of_2 (scast sz) then (s, - EINVAL)
      else
        (let r = (ring s)\<lparr>size_r := scast sz, consumer_head := 0,
                          producer_head := 0, producer_tail := 0\<rparr>
         in case kcalloc a (heap s) (scast sz) of
              (h, q) \<Rightarrow>
                if q = NULL then (\<lparr>heap = h, ring = r\<lparr>queue := q\<rparr>\<rparr>, - ENOMEM)
                else (\<lparr>heap = h, ring = r\<lparr>queue := q\<rparr>\<rparr>, 0)))"

subsection \<open>\<^verbatim>\<open>mpmc_ptr_ring_cleanup\<close>\<close>

text \<open>
  The caller's destructor acts on a state \<open>'w\<close> of its own (the memory of the elements):
  \<^verbatim>\<open>destroy(ptr)\<close> is \<open>destroy ptr w\<close>. A null function pointer is \<open>None\<close>.
  \<open>cleanup_drain\<close> is the loop \<^verbatim>\<open>while ((ptr = mpmc_ptr_ring_consume(r))) destroy(ptr);\<close>
\<close>

partial_function (option) cleanup_drain ::
  "(ptr \<Rightarrow> 'w \<Rightarrow> 'w) \<Rightarrow> kstate \<Rightarrow> 'w \<Rightarrow> (kstate \<times> 'w) result option"
where
  "cleanup_drain destroy s w =
     (case mpmc_ptr_ring_consume s of
        None \<Rightarrow> None
      | Some Fault \<Rightarrow> Some Fault
      | Some (Ok (s', x)) \<Rightarrow>
          if x \<noteq> NULL then cleanup_drain destroy s' (destroy x w)
          else Some (Ok (s', w)))"

definition mpmc_ptr_ring_cleanup ::
  "kstate \<Rightarrow> (ptr \<Rightarrow> 'w \<Rightarrow> 'w) option \<Rightarrow> 'w \<Rightarrow> (kstate \<times> 'w) result option"
where
  "mpmc_ptr_ring_cleanup s destroy w =
     (case (case destroy of
              Some d \<Rightarrow> cleanup_drain d s w
            | None \<Rightarrow> Some (Ok (s, w))) of
        None \<Rightarrow> None
      | Some Fault \<Rightarrow> Some Fault
      | Some (Ok (s', w')) \<Rightarrow>
          (case kfree (heap s') (queue (ring s')) of
             None \<Rightarrow> Some Fault
           | Some h \<Rightarrow> Some (Ok (s'\<lparr>heap := h\<rparr>, w'))))"

subsection \<open>\<^verbatim>\<open>__mpmc_ptr_ring_peek\<close> and \<^verbatim>\<open>__mpmc_ptr_ring_discard_one\<close>\<close>

definition mpmc_ptr_ring_peek :: "kstate \<Rightarrow> (kstate \<times> ptr) result" where
  "mpmc_ptr_ring_peek s =
     (let mask = size_r (ring s) - 1;
          c = consumer_head (ring s);
          p = producer_tail (ring s)
      in if c = p then Ok (s, NULL)
         else
           (case READ_ONCE (heap s) (queue (ring s)) (c AND mask) of
              None \<Rightarrow> Fault
            | Some element \<Rightarrow> Ok (s, element)))"

definition mpmc_ptr_ring_discard_one :: "kstate \<Rightarrow> kstate" where
  "mpmc_ptr_ring_discard_one s = s\<lparr>ring := (ring s)\<lparr>consumer_head := consumer_head (ring s) + 1\<rparr>\<rparr>"

subsection \<open>Well-formed rings and their contents\<close>

text \<open>
  A ring between two calls of a sequential execution: the size is a power of two, the slot
  array is live and has \<open>size\<close> slots, no produce is in progress (\<open>producer_head\<close> and
  \<open>producer_tail\<close> agree), and at most \<open>size - 1\<close> values are held. The counters are
  compared through their wrapping difference, so the predicate does not depend on the
  counters' absolute values.
\<close>

definition ring_wf :: "kstate \<Rightarrow> bool" where
  "ring_wf s \<longleftrightarrow>
     is_power_of_2 (size_r (ring s)) \<and>
     queue (ring s) \<noteq> NULL \<and>
     (case heap s (queue (ring s)) of
        None \<Rightarrow> False
      | Some xs \<Rightarrow> length xs = unat (size_r (ring s))) \<and>
     producer_head (ring s) = producer_tail (ring s) \<and>
     producer_tail (ring s) - consumer_head (ring s) \<le> size_r (ring s) - 1"

text \<open>
  The part of it that does not mention the counters: the size is a power of two and the
  slot array is live and has \<open>size\<close> slots. It also holds while a produce is in progress.
\<close>

definition slots_ok :: "kstate \<Rightarrow> bool" where
  "slots_ok s \<longleftrightarrow>
     is_power_of_2 (size_r (ring s)) \<and>
     (case heap s (queue (ring s)) of
        None \<Rightarrow> False
      | Some xs \<Rightarrow> length xs = unat (size_r (ring s)))"

text \<open>
  The values held: the slots of the logical indices \<open>consumer_head\<close>, \<open>consumer_head + 1\<close>,
  ..., \<open>producer_tail - 1\<close>, oldest first, each read at its index masked with \<open>size - 1\<close>.
\<close>

definition slots :: "kstate \<Rightarrow> ptr list" where
  "slots s = (case heap s (queue (ring s)) of None \<Rightarrow> [] | Some xs \<Rightarrow> xs)"

definition contents :: "kstate \<Rightarrow> ptr list" where
  "contents s =
     map (\<lambda>i. slots s ! unat ((consumer_head (ring s) + of_nat i) AND (size_r (ring s) - 1)))
       [0 ..< unat (producer_tail (ring s) - consumer_head (ring s))]"

subsection \<open>Sequential executions\<close>

text \<open>
  A sequential execution is a list of calls, each started after the one before it has
  returned. \<open>run\<close> makes the calls in order and collects what they return; it has no
  result when a call does not return, and is \<open>Fault\<close> when a call is.
\<close>

datatype call = Produce ptr | Consume

datatype ret = Produced int | Consumed ptr

fun run :: "kstate \<Rightarrow> call list \<Rightarrow> (kstate \<times> ret list) result option" where
  "run s [] = Some (Ok (s, []))"
| "run s (Produce x # cs) =
     (case mpmc_ptr_ring_produce s x of
        None \<Rightarrow> None
      | Some Fault \<Rightarrow> Some Fault
      | Some (Ok (s', rc)) \<Rightarrow>
          (case run s' cs of
             None \<Rightarrow> None
           | Some Fault \<Rightarrow> Some Fault
           | Some (Ok (s'', rs)) \<Rightarrow> Some (Ok (s'', Produced rc # rs))))"
| "run s (Consume # cs) =
     (case mpmc_ptr_ring_consume s of
        None \<Rightarrow> None
      | Some Fault \<Rightarrow> Some Fault
      | Some (Ok (s', v)) \<Rightarrow>
          (case run s' cs of
             None \<Rightarrow> None
           | Some Fault \<Rightarrow> Some Fault
           | Some (Ok (s'', rs)) \<Rightarrow> Some (Ok (s'', Consumed v # rs))))"

text \<open>
  The queue the spec describes, in the spec's words: a FIFO of at most \<open>capacity - 1\<close>
  values. Produce appends at the back and reports success, or reports \<open>RingFull\<close> and
  changes nothing; consume removes the value at the front, or reports \<open>Empty\<close> (the null
  value) on an empty queue.
\<close>

fun fifo_call :: "nat \<Rightarrow> ptr list \<Rightarrow> call \<Rightarrow> ptr list \<times> ret" where
  "fifo_call capacity q (Produce x) =
     (if length q < capacity - 1 then (q @ [x], Produced 0) else (q, Produced (- ENOSPC)))"
| "fifo_call capacity q Consume =
     (case q of [] \<Rightarrow> ([], Consumed NULL) | v # q' \<Rightarrow> (q', Consumed v))"

fun fifo_run :: "nat \<Rightarrow> ptr list \<Rightarrow> call list \<Rightarrow> ptr list \<times> ret list" where
  "fifo_run capacity q [] = (q, [])"
| "fifo_run capacity q (c # cs) =
     (case fifo_call capacity q c of
        (q', r) \<Rightarrow> (case fifo_run capacity q' cs of (q'', rs) \<Rightarrow> (q'', r # rs)))"

subsection \<open>The counter ordering\<close>

text \<open>
  The three counters read as unbounded integers (\<open>unat\<close>), with the number \<open>n\<close> of values
  that have been enqueued and not yet dequeued.
\<close>

definition ring_order :: "mpmc_ptr_ring \<Rightarrow> nat \<Rightarrow> bool" where
  "ring_order r n \<longleftrightarrow>
     unat (consumer_head r) \<le> unat (producer_tail r) \<and>
     unat (producer_tail r) \<le> unat (producer_head r) \<and>
     unat (producer_tail r) - unat (consumer_head r) = n"

subsection \<open>Concurrent consumers\<close>

text \<open>
  \<^verbatim>\<open>mpmc_ptr_ring_consume\<close> puts a full barrier (\<^verbatim>\<open>mb\<close>) around each of its accesses to the
  ring, so the threads' accesses are interleaved in one order that all threads agree on.
  A thread inside the function is at one of its accesses, with the locals it has set:
  the read of \<^verbatim>\<open>consumer_head\<close> into \<open>c\<close>, the read of \<^verbatim>\<open>producer_tail\<close> into \<open>p\<close> with
  the test \<^verbatim>\<open>p == c\<close>, the read of the slot into \<open>element\<close>, the compare-and-swap on
  \<^verbatim>\<open>consumer_head\<close>, or it has returned a value.
\<close>

datatype consume_pc =
    ReadHead
  | ReadTail size_t
  | ReadSlot size_t
  | Cas size_t ptr
  | Return ptr

text \<open>One access of a thread, on the state the other threads have left.\<close>

fun consume_step :: "kstate \<Rightarrow> consume_pc \<Rightarrow> (kstate \<times> consume_pc) result" where
  "consume_step s ReadHead = Ok (s, ReadTail (consumer_head (ring s)))"
| "consume_step s (ReadTail c) =
     (let p = producer_tail (ring s)
      in if p = c then Ok (s, Return NULL) else Ok (s, ReadSlot c))"
| "consume_step s (ReadSlot c) =
     (case READ_ONCE (heap s) (queue (ring s)) (c AND (size_r (ring s) - 1)) of
        None \<Rightarrow> Fault
      | Some element \<Rightarrow> Ok (s, Cas c element))"
| "consume_step s (Cas c element) =
     (case atomic_long_cmpxchg (consumer_head (ring s)) c (c + 1) of
        (v, old_c) \<Rightarrow>
          Ok (s\<lparr>ring := (ring s)\<lparr>consumer_head := v\<rparr>\<rparr>,
              if old_c = c then Return element else ReadHead))"
| "consume_step s (Return x) = Ok (s, Return x)"

text \<open>
  The steps of one call with no other thread running: it has no result when the fuel runs
  out before the call returns.
\<close>

fun consume_alone :: "nat \<Rightarrow> kstate \<Rightarrow> consume_pc \<Rightarrow> (kstate \<times> ptr) result option" where
  "consume_alone n s (Return x) = Some (Ok (s, x))"
| "consume_alone 0 s pc = None"
| "consume_alone (Suc n) s pc =
     (case consume_step s pc of
        Fault \<Rightarrow> Some Fault
      | Ok (s', pc') \<Rightarrow> consume_alone n s' pc')"

text \<open>
  A consumer thread drains the ring, as the loop of \<^verbatim>\<open>mpmc_ptr_ring_cleanup\<close> does:
  \<^verbatim>\<open>while ((ptr = mpmc_ptr_ring_consume(r))) ...\<close>. It keeps the values its calls have
  returned, in order. \<open>at\<close> is where it is in its current call, and \<open>None\<close> once a call
  has returned null and the loop has ended.
\<close>

record consumer =
  at :: "consume_pc option"
  received :: "ptr list"

fun consumer_step :: "kstate \<Rightarrow> consumer \<Rightarrow> (kstate \<times> consumer) result option" where
  "consumer_step s t =
     (case at t of
        None \<Rightarrow> None
      | Some (Return x) \<Rightarrow>
          if x \<noteq> NULL then Some (Ok (s, \<lparr>at = Some ReadHead, received = received t @ [x]\<rparr>))
          else Some (Ok (s, \<lparr>at = None, received = received t\<rparr>))
      | Some pc \<Rightarrow>
          (case consume_step s pc of
             Fault \<Rightarrow> Some Fault
           | Ok (s', pc') \<Rightarrow> Some (Ok (s', \<lparr>at = Some pc', received = received t\<rparr>))))"

text \<open>
  The threads run interleaved: a step of the system is a step of one thread that has not
  ended.
\<close>

inductive par_step :: "kstate \<times> consumer list \<Rightarrow> kstate \<times> consumer list \<Rightarrow> bool" where
  "i < length ts \<Longrightarrow> consumer_step s (ts ! i) = Some (Ok (s', t')) \<Longrightarrow>
     par_step (s, ts) (s', ts[i := t'])"

text \<open>
  The same steps under a given schedule, the list of the indices of the threads that step.
\<close>

fun schedule :: "nat list \<Rightarrow> kstate \<times> consumer list \<Rightarrow> (kstate \<times> consumer list) option" where
  "schedule [] cfg = Some cfg"
| "schedule (i # js) (s, ts) =
     (if i < length ts then
        (case consumer_step s (ts ! i) of
           Some (Ok (s', t')) \<Rightarrow> schedule js (s', ts[i := t'])
         | _ \<Rightarrow> None)
      else None)"

definition consumers :: "nat \<Rightarrow> consumer list" where
  "consumers N = replicate N \<lparr>at = Some ReadHead, received = []\<rparr>"

text \<open>
  For the proof about the race: the ring \<open>s0\<close> after \<open>k\<close> of its values have been consumed;
  the values a thread has been handed, those it has kept and the one a call has just
  returned to it; what a thread's locals are known to be when \<open>k\<close> values have been
  consumed (a local \<open>c\<close> is a value \<^verbatim>\<open>consumer_head\<close> had, \<open>j\<close> values consumed); and
  the two together for the system.
\<close>

definition consumed :: "kstate \<Rightarrow> nat \<Rightarrow> kstate" where
  "consumed s0 k = s0\<lparr>ring := (ring s0)\<lparr>consumer_head := consumer_head (ring s0) + of_nat k\<rparr>\<rparr>"

definition holding :: "consumer \<Rightarrow> ptr list" where
  "holding t =
     received t @
       (case at t of Some (Return x) \<Rightarrow> if x \<noteq> NULL then [x] else [] | _ \<Rightarrow> [])"

definition local_inv :: "kstate \<Rightarrow> nat \<Rightarrow> consume_pc option \<Rightarrow> bool" where
  "local_inv s0 k pc =
     (case pc of
        None \<Rightarrow> k = length (contents s0)
      | Some ReadHead \<Rightarrow> True
      | Some (ReadTail c) \<Rightarrow> (\<exists>j\<le>k. c = consumer_head (ring s0) + of_nat j)
      | Some (ReadSlot c) \<Rightarrow>
          (\<exists>j\<le>k. j < length (contents s0) \<and> c = consumer_head (ring s0) + of_nat j)
      | Some (Cas c e) \<Rightarrow>
          (\<exists>j\<le>k. j < length (contents s0) \<and> c = consumer_head (ring s0) + of_nat j \<and>
                  e = contents s0 ! j)
      | Some (Return x) \<Rightarrow> x = NULL \<longrightarrow> k = length (contents s0))"

definition race_inv :: "kstate \<Rightarrow> kstate \<times> consumer list \<Rightarrow> bool" where
  "race_inv s0 cfg \<longleftrightarrow>
     (\<exists>k\<le>length (contents s0).
        fst cfg = consumed s0 k \<and>
        mset (concat (map holding (snd cfg))) = mset (take k (contents s0)) \<and>
        (\<forall>t\<in>set (snd cfg). local_inv s0 k (at t)))"

text \<open>
  A bound on the steps the system can still make: a thread's steps to the end of its
  loop if no other thread moved (more when its local \<open>c\<close> is out of date and its
  compare-and-swap will fail), and a full round of every thread for each value left.
\<close>

definition rank :: "kstate \<Rightarrow> consumer \<Rightarrow> nat" where
  "rank s t =
     (case at t of
        None \<Rightarrow> 0
      | Some ReadHead \<Rightarrow> 5
      | Some (ReadTail c) \<Rightarrow> if c = consumer_head (ring s) then 4 else 9
      | Some (ReadSlot c) \<Rightarrow> if c = consumer_head (ring s) then 3 else 8
      | Some (Cas c e) \<Rightarrow> if c = consumer_head (ring s) then 2 else 7
      | Some (Return x) \<Rightarrow> if x = NULL then 1 else 6)"

definition effort :: "kstate \<times> consumer list \<Rightarrow> nat" where
  "effort cfg =
     unat (producer_tail (ring (fst cfg)) - consumer_head (ring (fst cfg))) *
       (9 * length (snd cfg) + 1) +
     sum_list (map (rank (fst cfg)) (snd cfg))"

subsection \<open>Example states\<close>

text \<open>
  The states of the concrete instances below: a zeroed ring structure on an allocator with
  no live slot array.
\<close>

definition unused_ring :: kstate where
  "unused_ring =
     \<lparr>heap = Map.empty,
      ring = \<lparr>queue = NULL, size_r = 0, consumer_head = 0, producer_head = 0,
              producer_tail = 0\<rparr>\<rparr>"

text \<open>
  The ring of capacity 4 that init builds on it at address 4096, and that ring after
  \<^verbatim>\<open>produce(7)\<close>.
\<close>

definition ring4 :: kstate where
  "ring4 =
     \<lparr>heap = [4096 \<mapsto> [NULL, NULL, NULL, NULL]],
      ring = \<lparr>queue = 4096, size_r = 4, consumer_head = 0, producer_head = 0,
              producer_tail = 0\<rparr>\<rparr>"

definition ring4_held :: kstate where
  "ring4_held =
     \<lparr>heap = [4096 \<mapsto> [7, NULL, NULL, NULL]],
      ring = \<lparr>queue = 4096, size_r = 4, consumer_head = 0, producer_head = 1,
              producer_tail = 1\<rparr>\<rparr>"

text \<open>The ring of capacity 4 after \<^verbatim>\<open>produce(NULL)\<close> and \<^verbatim>\<open>produce(7)\<close>.\<close>

definition ring4_null :: kstate where
  "ring4_null =
     \<lparr>heap = [4096 \<mapsto> [NULL, 7, NULL, NULL]],
      ring = \<lparr>queue = 4096, size_r = 4, consumer_head = 0, producer_head = 2,
              producer_tail = 2\<rparr>\<rparr>"

text \<open>The ring of capacity 4 after \<^verbatim>\<open>produce(7)\<close> and \<^verbatim>\<open>produce(9)\<close>.\<close>

definition ring4_pair :: kstate where
  "ring4_pair =
     \<lparr>heap = [4096 \<mapsto> [7, 9, NULL, NULL]],
      ring = \<lparr>queue = 4096, size_r = 4, consumer_head = 0, producer_head = 2,
              producer_tail = 2\<rparr>\<rparr>"

text \<open>The ring of capacity 4 after \<^verbatim>\<open>produce(7)\<close>, \<^verbatim>\<open>produce(8)\<close> and \<^verbatim>\<open>produce(9)\<close>.\<close>

definition ring4_three :: kstate where
  "ring4_three =
     \<lparr>heap = [4096 \<mapsto> [7, 8, 9, NULL]],
      ring = \<lparr>queue = 4096, size_r = 4, consumer_head = 0, producer_head = 3,
              producer_tail = 3\<rparr>\<rparr>"

text \<open>
  The ring of capacity 4 that holds 7 while a second produce is in progress: it has taken
  index 1 and has not yet moved \<^verbatim>\<open>producer_tail\<close>.
\<close>

definition ring4_inflight :: kstate where
  "ring4_inflight =
     \<lparr>heap = [4096 \<mapsto> [7, NULL, NULL, NULL]],
      ring = \<lparr>queue = 4096, size_r = 4, consumer_head = 0, producer_head = 2,
              producer_tail = 1\<rparr>\<rparr>"

text \<open>A destructor that records the values it is called on, in the order of the calls.\<close>

definition record_call :: "ptr \<Rightarrow> ptr list \<Rightarrow> ptr list" where
  "record_call x calls = calls @ [x]"

section \<open>The operations in a sequential execution\<close>

subsection \<open>The loops of a sequential execution\<close>

lemma produce_claim_head:
  "produce_claim r (producer_head r) =
     Some (if producer_head r - consumer_head r < size_r r - 1
           then (r\<lparr>producer_head := producer_head r + 1\<rparr>, Some (producer_head r))
           else (r, None))"
  by (subst produce_claim.simps) (simp add: atomic_long_cmpxchg_def Let_def)

lemma produce_wait_eq: "produce_wait r p = (if producer_tail r = p then Some () else None)"
proof (cases "producer_tail r = p")
  case True
  then show ?thesis by (subst produce_wait.simps) simp
next
  case False
  have "produce_wait r' p' = Some u \<Longrightarrow> producer_tail r' = p'" for r' p' u
    by (rule produce_wait.raw_induct [where P = "\<lambda>r p u. producer_tail r = p"])
       (auto split: if_splits)
  with False show ?thesis by (cases "produce_wait r p") auto
qed

lemma consume_eq:
  "mpmc_ptr_ring_consume s =
     (if producer_tail (ring s) = consumer_head (ring s) then Some (Ok (s, NULL))
      else case READ_ONCE (heap s) (queue (ring s))
                  (consumer_head (ring s) AND (size_r (ring s) - 1)) of
             None \<Rightarrow> Some Fault
           | Some e \<Rightarrow>
               Some (Ok (s\<lparr>ring := (ring s)\<lparr>consumer_head := consumer_head (ring s) + 1\<rparr>\<rparr>, e)))"
  by (subst mpmc_ptr_ring_consume.simps)
     (simp add: atomic_long_cmpxchg_def Let_def split: option.splits)

lemma produce_eq:
  "mpmc_ptr_ring_produce s x =
     (if producer_head (ring s) - consumer_head (ring s) < size_r (ring s) - 1 then
        (case WRITE_ONCE (heap s) (queue (ring s))
                (producer_head (ring s) AND (size_r (ring s) - 1)) x of
           None \<Rightarrow> Some Fault
         | Some h \<Rightarrow>
             if producer_tail (ring s) = producer_head (ring s)
             then Some (Ok (\<lparr>heap = h,
                             ring = (ring s)\<lparr>producer_head := producer_head (ring s) + 1,
                                             producer_tail := producer_head (ring s) + 1\<rparr>\<rparr>, 0))
             else None)
      else Some (Ok (s, - ENOSPC)))"
  by (simp add: mpmc_ptr_ring_produce_def produce_claim_head produce_wait_eq Let_def
           split: option.splits)

subsection \<open>Powers of two and masked indices\<close>

lemma nat_and_pred_zero_iff:
  "0 < n \<Longrightarrow> n AND (n - 1) = 0 \<longleftrightarrow> (\<exists>k. n = 2 ^ k)" for n :: nat
proof (induction n rule: less_induct)
  case (less n)
  show ?case
  proof (cases "even n")
    case True
    then obtain m where m: "n = 2 * m" by (auto elim: evenE)
    with less.prems have mpos: "0 < m" by simp
    have pred: "(n - 1) div 2 = m - 1" using m mpos by (cases m) auto
    have "n AND (n - 1) = 2 * (m AND (m - 1))"
      by (subst and_nat_rec) (use m pred True in simp)
    moreover have "m AND (m - 1) = 0 \<longleftrightarrow> (\<exists>k. m = 2 ^ k)"
      using less.IH [of m] m mpos by simp
    moreover have "(\<exists>k. m = 2 ^ k) \<longleftrightarrow> (\<exists>k. n = 2 ^ k)"
    proof
      assume "\<exists>k. m = 2 ^ k"
      then obtain k where "m = 2 ^ k" ..
      then have "n = 2 ^ Suc k" using m by simp
      then show "\<exists>k. n = 2 ^ k" ..
    next
      assume "\<exists>k. n = 2 ^ k"
      then obtain k where k: "n = 2 ^ k" ..
      with m mpos have "k \<noteq> 0" by (cases k) auto
      then obtain j where "k = Suc j" by (cases k) auto
      with k m have "m = 2 ^ j" by simp
      then show "\<exists>k. m = 2 ^ k" ..
    qed
    ultimately show ?thesis by simp
  next
    case False
    then obtain m where m: "n = 2 * m + 1" by (auto elim: oddE)
    have "n AND (n - 1) = 2 * m"
      by (subst and_nat_rec) (use m in simp)
    moreover have "m = 0 \<longleftrightarrow> (\<exists>k. n = 2 ^ k)"
    proof
      assume "m = 0"
      then have "n = 2 ^ 0" using m by simp
      then show "\<exists>k. n = 2 ^ k" ..
    next
      assume "\<exists>k. n = 2 ^ k"
      then obtain k where k: "n = 2 ^ k" ..
      with False have "k = 0" by (cases k) auto
      with k m show "m = 0" by simp
    qed
    ultimately show ?thesis by simp
  qed
qed

lemma is_power_of_2_unat: "is_power_of_2 n \<longleftrightarrow> (\<exists>k. unat n = 2 ^ k)"
proof (cases "n = 0")
  case True
  then show ?thesis by (simp add: is_power_of_2_def)
next
  case False
  then have pos: "0 < unat n" by (simp add: unat_gt_0)
  have "unat (n AND (n - 1)) = unat n AND (unat n - 1)"
    using False by (simp add: unsigned_and_eq unat_minus_one)
  then have "n AND (n - 1) = 0 \<longleftrightarrow> unat n AND (unat n - 1) = 0"
    by (metis unat_eq_0)
  with False nat_and_pred_zero_iff [OF pos] show ?thesis
    by (simp add: is_power_of_2_def)
qed

lemma unat_2p: "k < 64 \<Longrightarrow> unat (2 ^ k :: 64 word) = 2 ^ k"
proof -
  assume "k < 64"
  then have "(2 ^ k :: 64 word) \<noteq> 0" by simp
  then have "(0 :: 64 word) < 2 ^ k" by (simp only: word_gt_0)
  then have "uint (2 ^ k :: 64 word) = 2 ^ k" by (rule uint_2p)
  then have "unat (2 ^ k :: 64 word) = nat (2 ^ k)" by (simp only: unat_eq_nat_uint)
  then show ?thesis by simp
qed

lemma is_power_of_2_iff: "is_power_of_2 n \<longleftrightarrow> (\<exists>k<64. n = 2 ^ k)"
proof
  assume "is_power_of_2 n"
  then obtain k where k: "unat n = 2 ^ k" by (auto simp: is_power_of_2_unat)
  have "unat n < 2 ^ 64" using unsigned_less [of n] by simp
  with k have "(2::nat) ^ k < 2 ^ 64" by simp
  then have "k < 64" by (simp only: power_strict_increasing_iff [of 2 k 64])
  moreover have "n = 2 ^ k"
  proof -
    have "n = of_nat (unat n)" by simp
    also have "\<dots> = 2 ^ k" by (simp only: k) simp
    finally show ?thesis .
  qed
  ultimately show "\<exists>k<64. n = 2 ^ k" by blast
next
  assume "\<exists>k<64. n = 2 ^ k"
  then obtain k where "k < 64" "n = 2 ^ k" by blast
  then have "unat n = 2 ^ k" by (simp add: unat_2p)
  then show "is_power_of_2 n" by (auto simp: is_power_of_2_unat)
qed

lemma unat_and_mask: "unat (w AND mask k) = unat w mod 2 ^ k" for w :: "64 word"
proof -
  have "unat (w AND mask k) = unat (take_bit k w)" by (simp only: take_bit_eq_mask)
  also have "\<dots> = take_bit k (unat w)" by (rule unsigned_take_bit_eq)
  also have "\<dots> = unat w mod 2 ^ k" by (rule take_bit_nat_def)
  finally show ?thesis .
qed

lemma slot_index:
  assumes "k < 64"
  shows "unat ((c + of_nat i) AND (2 ^ k - 1 :: 64 word)) = (unat c + i) mod 2 ^ k"
proof -
  have "unat ((c + of_nat i) AND (2 ^ k - 1 :: 64 word)) = unat (c + of_nat i) mod 2 ^ k"
    by (simp only: unat_and_mask flip: mask_eq_decr_exp)
  also have "unat (c + of_nat i :: 64 word) = (unat c + i) mod 2 ^ 64"
    by (simp add: unat_word_ariths unat_of_nat mod_add_right_eq)
  also have "(unat c + i) mod 2 ^ 64 mod 2 ^ k = (unat c + i) mod 2 ^ k"
  proof (rule mod_mod_cancel)
    show "(2::nat) ^ k dvd 2 ^ 64" using assms by (intro le_imp_power_dvd) simp
  qed
  finally show ?thesis .
qed

lemma slot_index_inj:
  fixes c i j :: nat
  assumes "i < 2 ^ k" "j < 2 ^ k" "(c + i) mod 2 ^ k = (c + j) mod 2 ^ k"
  shows "i = j"
proof (rule ccontr)
  assume ne: "i \<noteq> j"
  have *: "False" if lt: "a < b" and b: "b < 2 ^ k"
    and eq: "(c + a) mod 2 ^ k = (c + b) mod 2 ^ k" for a b :: nat
  proof -
    have "c + a \<le> c + b" using lt by simp
    then have "(2::nat) ^ k dvd (c + b) - (c + a)"
      using eq by (simp only: mod_eq_dvd_iff_nat [symmetric])
    then have "(b - a) mod 2 ^ k = 0" by (simp add: dvd_eq_mod_eq_0)
    moreover have "b - a < 2 ^ k" "0 < b - a" using lt b by auto
    ultimately show False by simp
  qed
  from ne consider "i < j" | "j < i" by linarith
  then show False
    using * [of i j] * [of j i] assms by cases auto
qed

subsection \<open>Produce and consume on a well-formed ring\<close>

lemma ring_wf_view:
  assumes "ring_wf s"
  obtains k xs where "k < 64" "size_r (ring s) = 2 ^ k"
    "heap s (queue (ring s)) = Some xs" "length xs = 2 ^ k" "slots s = xs"
    "unat (size_r (ring s) - 1) = 2 ^ k - 1"
    "unat (producer_tail (ring s) - consumer_head (ring s)) \<le> 2 ^ k - 1"
    "producer_head (ring s) = producer_tail (ring s)"
    "queue (ring s) \<noteq> NULL"
proof -
  from assms obtain k where k: "k < 64" "size_r (ring s) = 2 ^ k"
    by (auto simp: ring_wf_def is_power_of_2_iff)
  from assms obtain xs where xs: "heap s (queue (ring s)) = Some xs"
    "length xs = unat (size_r (ring s))"
    by (auto simp: ring_wf_def split: option.splits)
  have m: "unat (size_r (ring s) - 1) = 2 ^ k - 1"
    using k by (simp add: unat_minus_one unat_2p)
  have "unat (producer_tail (ring s) - consumer_head (ring s)) \<le> unat (size_r (ring s) - 1)"
    using assms by (simp add: ring_wf_def word_le_nat_alt)
  with m have "unat (producer_tail (ring s) - consumer_head (ring s)) \<le> 2 ^ k - 1" by simp
  moreover have "slots s = xs" using xs by (simp add: slots_def)
  moreover have "length xs = 2 ^ k" using xs k by (simp add: unat_2p)
  ultimately show ?thesis
    using that k xs m assms by (simp add: ring_wf_def)
qed

lemma length_contents [simp]:
  "length (contents s) = unat (producer_tail (ring s) - consumer_head (ring s))"
  by (simp add: contents_def)

lemma contents_Nil_iff: "contents s = [] \<longleftrightarrow> producer_tail (ring s) = consumer_head (ring s)"
proof -
  have "contents s = [] \<longleftrightarrow> unat (producer_tail (ring s) - consumer_head (ring s)) = 0"
    by (simp add: contents_def)
  then show ?thesis by (simp add: unat_eq_0)
qed

lemma produce_full:
  assumes "ring_wf s" "\<not> length (contents s) < unat (size_r (ring s)) - 1"
  shows "mpmc_ptr_ring_produce s x = Some (Ok (s, - ENOSPC))"
proof -
  from assms(1) obtain k xs where v: "k < 64" "size_r (ring s) = 2 ^ k"
    "unat (size_r (ring s) - 1) = 2 ^ k - 1"
    "producer_head (ring s) = producer_tail (ring s)"
    by (rule ring_wf_view)
  have "\<not> producer_head (ring s) - consumer_head (ring s) < size_r (ring s) - 1"
    using assms(2) v by (simp add: word_less_nat_alt unat_2p)
  then show ?thesis by (simp add: produce_eq)
qed

lemma produce_room:
  assumes "ring_wf s" "length (contents s) < unat (size_r (ring s)) - 1"
  shows "\<exists>s'. mpmc_ptr_ring_produce s x = Some (Ok (s', 0)) \<and> ring_wf s' \<and>
           contents s' = contents s @ [x] \<and>
           size_r (ring s') = size_r (ring s) \<and> queue (ring s') = queue (ring s) \<and>
           consumer_head (ring s') = consumer_head (ring s) \<and>
           producer_tail (ring s') = producer_tail (ring s) + 1 \<and>
           producer_head (ring s') = producer_head (ring s) + 1 \<and>
           dom (heap s') = dom (heap s)"
proof -
  from assms(1) obtain k xs where v: "k < 64" "size_r (ring s) = 2 ^ k"
    "heap s (queue (ring s)) = Some xs" "length xs = 2 ^ k" "slots s = xs"
    "unat (size_r (ring s) - 1) = 2 ^ k - 1"
    "unat (producer_tail (ring s) - consumer_head (ring s)) \<le> 2 ^ k - 1"
    "producer_head (ring s) = producer_tail (ring s)"
    "queue (ring s) \<noteq> NULL"
    by (rule ring_wf_view)
  define c where "c = consumer_head (ring s)"
  define t where "t = producer_tail (ring s)"
  define n where "n = unat (t - c)"
  define idx where "idx = (unat c + n) mod 2 ^ k"
  have n: "n < 2 ^ k - 1" using assms(2) v by (simp add: n_def t_def c_def unat_2p)
  have t: "t = c + of_nat n" by (simp add: n_def)
  have room: "producer_head (ring s) - consumer_head (ring s) < size_r (ring s) - 1"
    using n v by (simp add: word_less_nat_alt n_def t_def c_def)
  have idx: "unat (t AND (size_r (ring s) - 1)) = idx"
    unfolding idx_def t v(2) using v(1) by (rule slot_index)
  have idx_lt: "idx < length xs" by (simp add: idx_def v)
  define s' where "s' = \<lparr>heap = (heap s)(queue (ring s) \<mapsto> xs[idx := x]),
     ring = (ring s)\<lparr>producer_head := t + 1, producer_tail := t + 1\<rparr>\<rparr>"
  have run: "mpmc_ptr_ring_produce s x = Some (Ok (s', 0))"
    using room idx idx_lt v
    by (simp add: produce_eq WRITE_ONCE_def s'_def t_def)
  have n': "unat (t + 1 - c) = Suc n"
  proof -
    have e: "t + 1 - c = (t - c) + 1" by simp
    have "unat ((t - c) + 1) = unat (t - c) + unat (1 :: 64 word)"
    proof (subst unat_add_lem [symmetric])
      have "(2::nat) ^ k < 2 ^ 64" using v(1) by (simp only: power_strict_increasing_iff)
      then show "unat (t - c) + unat (1 :: 64 word) < 2 ^ LENGTH(64)"
        using n by (simp add: n_def)
    qed
    then show ?thesis by (simp only: e n_def) simp
  qed
  have slots': "slots s' = xs[idx := x]" by (simp add: slots_def s'_def)
  have old: "xs[idx := x] ! unat ((c + of_nat i) AND (2 ^ k - 1)) =
             xs ! unat ((c + of_nat i) AND (2 ^ k - 1))" if "i < n" for i
  proof -
    have "(unat c + i) mod 2 ^ k \<noteq> idx"
    proof
      assume "(unat c + i) mod 2 ^ k = idx"
      then have "i = n" using that n
        by (intro slot_index_inj [of i k n "unat c"]) (auto simp: idx_def)
      with that show False by simp
    qed
    then show ?thesis using v(1) by (simp add: slot_index)
  qed
  have new: "xs[idx := x] ! unat ((c + of_nat n) AND (2 ^ k - 1)) = x"
    using v(1) idx_lt by (simp add: slot_index idx_def)
  have rs: "consumer_head (ring s') = c" "producer_tail (ring s') = t + 1"
    "size_r (ring s') = 2 ^ k"
    by (simp_all add: s'_def c_def v(2))
  have "contents s' = map (\<lambda>i. xs[idx := x] ! unat ((c + of_nat i) AND (2 ^ k - 1))) [0 ..< Suc n]"
    by (simp only: contents_def slots' rs n')
  also have "\<dots> = map (\<lambda>i. xs ! unat ((c + of_nat i) AND (2 ^ k - 1))) [0 ..< n] @ [x]"
    using old new by simp
  also have "map (\<lambda>i. xs ! unat ((c + of_nat i) AND (2 ^ k - 1))) [0 ..< n] = contents s"
    by (simp add: contents_def v c_def n_def t_def)
  finally have cont: "contents s' = contents s @ [x]" .
  have wf: "ring_wf s'"
  proof -
    have "unat (t + 1 - c) \<le> unat (size_r (ring s) - 1)" using n n' v by simp
    then have "t + 1 - c \<le> size_r (ring s) - 1" by (simp only: word_le_nat_alt)
    then show ?thesis
      using assms(1) v idx_lt by (simp add: ring_wf_def s'_def c_def)
  qed
  have "dom (heap s') = dom (heap s)" using v(3) by (auto simp: s'_def)
  with run wf cont show ?thesis
    using v(8) by (intro exI [of _ s']) (simp add: s'_def t_def)
qed

lemma consume_empty:
  assumes "contents s = []"
  shows "mpmc_ptr_ring_consume s = Some (Ok (s, NULL))"
  using assms by (simp add: consume_eq contents_Nil_iff)

lemma contents_Cons:
  assumes "ring_wf s" "contents s \<noteq> []"
  shows "READ_ONCE (heap s) (queue (ring s))
           (consumer_head (ring s) AND (size_r (ring s) - 1)) = Some (hd (contents s))"
proof -
  from assms(1) obtain k xs where v: "k < 64" "size_r (ring s) = 2 ^ k"
    "heap s (queue (ring s)) = Some xs" "length xs = 2 ^ k" "slots s = xs"
    by (rule ring_wf_view)
  define c where "c = consumer_head (ring s)"
  have pos: "0 < unat (producer_tail (ring s) - c)"
    using assms(2) by (simp add: contents_def c_def)
  have "unat ((c + of_nat 0) AND (2 ^ k - 1)) = (unat c + 0) mod 2 ^ k"
    using v(1) by (rule slot_index)
  then have i: "unat (c AND (2 ^ k - 1)) < length xs" by (simp add: v)
  have "hd (contents s) = xs ! unat (c AND (2 ^ k - 1))"
    using pos by (simp add: contents_def v c_def hd_map upt_conv_Cons)
  with i show ?thesis by (simp add: READ_ONCE_def v c_def)
qed

lemma consume_nonempty:
  assumes "ring_wf s" "contents s \<noteq> []"
  shows "\<exists>s'. mpmc_ptr_ring_consume s = Some (Ok (s', hd (contents s))) \<and> ring_wf s' \<and>
           contents s' = tl (contents s) \<and>
           heap s' = heap s \<and>
           size_r (ring s') = size_r (ring s) \<and> queue (ring s') = queue (ring s) \<and>
           consumer_head (ring s') = consumer_head (ring s) + 1 \<and>
           producer_tail (ring s') = producer_tail (ring s) \<and>
           producer_head (ring s') = producer_head (ring s)"
proof -
  define c where "c = consumer_head (ring s)"
  define t where "t = producer_tail (ring s)"
  define n where "n = unat (t - c)"
  define m where "m = size_r (ring s) - 1"
  define s' where "s' = s\<lparr>ring := (ring s)\<lparr>consumer_head := c + 1\<rparr>\<rparr>"
  have ne: "t \<noteq> c" using assms(2) by (simp add: contents_Nil_iff t_def c_def)
  then have "t - c \<noteq> 0" by simp
  then have npos: "0 < n" by (simp add: n_def unat_gt_0)
  have run: "mpmc_ptr_ring_consume s = Some (Ok (s', hd (contents s)))"
    using ne contents_Cons [OF assms] by (simp add: consume_eq s'_def t_def c_def)
  have n': "unat (t - (c + 1)) = n - 1"
  proof -
    have "t - (c + 1) = (t - c) - 1" by simp
    moreover have "unat ((t - c) - 1) = unat (t - c) - 1"
      using \<open>t - c \<noteq> 0\<close> by (rule unat_minus_one)
    ultimately show ?thesis by (simp only: n_def)
  qed
  have "contents s' = map (\<lambda>i. slots s ! unat ((c + 1 + of_nat i) AND m)) [0 ..< n - 1]"
    using n' by (simp add: contents_def s'_def slots_def t_def m_def)
  also have "\<dots> = map (\<lambda>i. slots s ! unat ((c + of_nat (Suc i)) AND m)) [0 ..< n - 1]"
  proof -
    have "c + 1 + of_nat i = c + of_nat (Suc i)" for i by simp
    then show ?thesis by (simp only:)
  qed
  also have "\<dots> = map (\<lambda>i. slots s ! unat ((c + of_nat i) AND m)) (map Suc [0 ..< n - 1])"
    by (simp only: map_map comp_def)
  also have "map Suc [0 ..< n - 1] = tl [0 ..< n]"
    using npos by (simp add: map_Suc_upt tl_upt)
  also have "map (\<lambda>i. slots s ! unat ((c + of_nat i) AND m)) (tl [0 ..< n]) = tl (contents s)"
    by (simp only: map_tl contents_def c_def t_def n_def m_def)
  finally have cont: "contents s' = tl (contents s)" .
  have wf: "ring_wf s'"
  proof -
    have "unat (t - (c + 1)) \<le> unat (t - c)" using n' by (simp add: n_def)
    then have "t - (c + 1) \<le> t - c" by (simp only: word_le_nat_alt)
    moreover have "t - c \<le> size_r (ring s) - 1"
      using assms(1) by (simp add: ring_wf_def t_def c_def)
    ultimately have "t - (c + 1) \<le> size_r (ring s) - 1" by (rule order_trans)
    then show ?thesis
      using assms(1) by (auto simp: ring_wf_def s'_def t_def split: option.splits)
  qed
  from run wf cont show ?thesis
    by (intro exI [of _ s']) (simp add: s'_def c_def)
qed

subsection \<open>A sequential execution is an execution of the FIFO\<close>

lemma call_refines_fifo:
  assumes "ring_wf s"
  shows "\<exists>s'. run s [c] =
           Some (Ok (s', [snd (fifo_call (unat (size_r (ring s))) (contents s) c)])) \<and>
         ring_wf s' \<and> size_r (ring s') = size_r (ring s) \<and>
         queue (ring s') = queue (ring s) \<and> dom (heap s') = dom (heap s) \<and>
         contents s' = fst (fifo_call (unat (size_r (ring s))) (contents s) c)"
proof (cases c)
  case (Produce x)
  show ?thesis
  proof (cases "length (contents s) < unat (size_r (ring s)) - 1")
    case True
    from produce_room [OF assms True, of x] Produce True show ?thesis by auto
  next
    case False
    from produce_full [OF assms False, of x] Produce False assms show ?thesis by auto
  qed
next
  case Consume
  show ?thesis
  proof (cases "contents s")
    case Nil
    with consume_empty [of s] Consume assms show ?thesis by auto
  next
    case (Cons v vs)
    then have "contents s \<noteq> []" by simp
    from consume_nonempty [OF assms this] Consume Cons show ?thesis by auto
  qed
qed

lemma run_Cons:
  "run s (c # cs) =
     (case run s [c] of
        None \<Rightarrow> None
      | Some Fault \<Rightarrow> Some Fault
      | Some (Ok (s', r)) \<Rightarrow>
          (case run s' cs of
             None \<Rightarrow> None
           | Some Fault \<Rightarrow> Some Fault
           | Some (Ok (s'', rs)) \<Rightarrow> Some (Ok (s'', r @ rs))))"
  by (cases c) (auto split: option.splits result.splits)

lemma run_refines_fifo:
  assumes "ring_wf s"
  shows "\<exists>s'. run s cs =
           Some (Ok (s', snd (fifo_run (unat (size_r (ring s))) (contents s) cs))) \<and>
         ring_wf s' \<and> size_r (ring s') = size_r (ring s) \<and>
         queue (ring s') = queue (ring s) \<and> dom (heap s') = dom (heap s) \<and>
         contents s' = fst (fifo_run (unat (size_r (ring s))) (contents s) cs)"
  using assms
proof (induction cs arbitrary: s)
  case Nil
  then show ?case by simp
next
  case (Cons c cs)
  from call_refines_fifo [OF Cons.prems, of c] obtain s1 where
    s1: "run s [c] = Some (Ok (s1, [snd (fifo_call (unat (size_r (ring s))) (contents s) c)]))"
      "ring_wf s1" "size_r (ring s1) = size_r (ring s)" "queue (ring s1) = queue (ring s)"
      "dom (heap s1) = dom (heap s)"
      "contents s1 = fst (fifo_call (unat (size_r (ring s))) (contents s) c)"
    by blast
  from Cons.IH [OF s1(2)] obtain s2 where
    s2: "run s1 cs = Some (Ok (s2, snd (fifo_run (unat (size_r (ring s1))) (contents s1) cs)))"
      "ring_wf s2" "size_r (ring s2) = size_r (ring s1)" "queue (ring s2) = queue (ring s1)"
      "dom (heap s2) = dom (heap s1)"
      "contents s2 = fst (fifo_run (unat (size_r (ring s1))) (contents s1) cs)"
    by blast
  show ?case
    using s1 s2 by (intro exI [of _ s2]) (simp add: run_Cons [of s c cs] split: prod.splits)
qed

subsection \<open>Construction\<close>

lemma uint_scast_size:
  "uint (scast sz :: 64 word) = (if 0 \<le> sint sz then sint sz else 2 ^ 64 + sint sz)"
  for sz :: "32 word"
proof -
  have r: "- (2 ^ 31) \<le> sint sz" "sint sz < 2 ^ 31"
    using sint_ge [of sz] sint_lt [of sz] by simp_all
  have "uint (scast sz :: 64 word) = sint sz mod 2 ^ 64"
    by (simp only: scast_eq uint_word_of_int) simp
  also have "\<dots> = (if 0 \<le> sint sz then sint sz else 2 ^ 64 + sint sz)"
  proof (cases "0 \<le> sint sz")
    case True
    then show ?thesis using r by simp
  next
    case False
    have "(2 ^ 64 + sint sz) mod 2 ^ 64 = 2 ^ 64 + sint sz"
      using False r by (intro mod_pos_pos_trivial) simp_all
    moreover have "(2 ^ 64 + sint sz) mod 2 ^ 64 = sint sz mod 2 ^ 64" by simp
    ultimately show ?thesis using False by simp
  qed
  finally show ?thesis .
qed

lemma is_power_of_2_size:
  "is_power_of_2 (scast sz) \<longleftrightarrow> (\<exists>k. sint sz = 2 ^ k)" for sz :: "32 word"
proof
  assume "is_power_of_2 (scast sz)"
  then obtain k where k: "k < 64" "(scast sz :: 64 word) = 2 ^ k"
    by (auto simp: is_power_of_2_iff)
  then have "unat (scast sz :: 64 word) = 2 ^ k" by (simp add: unat_2p)
  then have u: "uint (scast sz :: 64 word) = 2 ^ k" by (simp only: uint_nat) simp
  have "(2::int) ^ k \<le> 2 ^ 63" using k(1) by (intro power_increasing) simp_all
  have "0 \<le> sint sz"
  proof (rule ccontr)
    assume neg: "\<not> 0 \<le> sint sz"
    have "- (2 ^ 31) \<le> sint sz" using sint_ge [of sz] by simp
    with neg u have "(2::int) ^ 64 - 2 ^ 31 \<le> 2 ^ k" by (simp add: uint_scast_size)
    with \<open>(2::int) ^ k \<le> 2 ^ 63\<close> show False by simp
  qed
  with u have "sint sz = 2 ^ k" by (simp add: uint_scast_size)
  then show "\<exists>k. sint sz = 2 ^ k" ..
next
  assume "\<exists>k. sint sz = 2 ^ k"
  then obtain k where k: "sint sz = 2 ^ k" ..
  from k have "uint (scast sz :: 64 word) = 2 ^ k" by (simp add: uint_scast_size)
  then have "int (unat (scast sz :: 64 word)) = int (2 ^ k)" by (simp only: uint_nat) simp
  then have "unat (scast sz :: 64 word) = 2 ^ k" by (simp only: of_nat_eq_iff)
  then show "is_power_of_2 (scast sz)" by (auto simp: is_power_of_2_unat)
qed

lemma init_invalid:
  assumes "\<not> is_power_of_2 (scast sz)"
  shows "mpmc_ptr_ring_init a s sz = (s, - EINVAL)"
  using assms by (simp add: mpmc_ptr_ring_init_def)

lemma init_valid:
  assumes "is_power_of_2 (scast sz)"
  shows "mpmc_ptr_ring_init a s sz =
     (if a = NULL \<or> heap s a \<noteq> None
      then (\<lparr>heap = heap s,
             ring = (ring s)\<lparr>queue := NULL, size_r := scast sz, consumer_head := 0,
                              producer_head := 0, producer_tail := 0\<rparr>\<rparr>, - ENOMEM)
      else (\<lparr>heap = (heap s)(a \<mapsto> replicate (unat (scast sz :: 64 word)) NULL),
             ring = (ring s)\<lparr>queue := a, size_r := scast sz, consumer_head := 0,
                              producer_head := 0, producer_tail := 0\<rparr>\<rparr>, 0))"
  using assms by (simp add: mpmc_ptr_ring_init_def kcalloc_def Let_def)

lemma init_cases:
  "snd (mpmc_ptr_ring_init a s sz) = - EINVAL \<or>
   snd (mpmc_ptr_ring_init a s sz) = - ENOMEM \<or>
   snd (mpmc_ptr_ring_init a s sz) = 0"
  by (cases "is_power_of_2 (scast sz)") (simp_all add: init_invalid init_valid)

lemma init_ok_iff:
  "snd (mpmc_ptr_ring_init a s sz) = 0 \<longleftrightarrow>
     is_power_of_2 (scast sz) \<and> a \<noteq> NULL \<and> heap s a = None"
  by (cases "is_power_of_2 (scast sz)")
     (auto simp: init_invalid init_valid EINVAL_def ENOMEM_def)

lemma init_ok_wf:
  assumes "mpmc_ptr_ring_init a s sz = (s', 0)"
  shows "ring_wf s'" "contents s' = []" "size_r (ring s') = scast sz"
    "consumer_head (ring s') = 0" "producer_head (ring s') = 0" "producer_tail (ring s') = 0"
    "queue (ring s') = a" "heap s' = (heap s)(a \<mapsto> replicate (unat (scast sz :: 64 word)) NULL)"
proof -
  from assms have "snd (mpmc_ptr_ring_init a s sz) = 0" by simp
  then have p: "is_power_of_2 (scast sz)" "a \<noteq> NULL" "heap s a = None"
    by (simp_all add: init_ok_iff)
  with assms have s': "s' = \<lparr>heap = (heap s)(a \<mapsto> replicate (unat (scast sz :: 64 word)) NULL),
             ring = (ring s)\<lparr>queue := a, size_r := scast sz, consumer_head := 0,
                              producer_head := 0, producer_tail := 0\<rparr>\<rparr>"
    by (simp add: init_valid)
  show "ring_wf s'" using p by (simp add: s' ring_wf_def)
  show "contents s' = []" by (simp add: s' contents_def)
  show "size_r (ring s') = scast sz" "consumer_head (ring s') = 0"
    "producer_head (ring s') = 0" "producer_tail (ring s') = 0" "queue (ring s') = a"
    "heap s' = (heap s)(a \<mapsto> replicate (unat (scast sz :: 64 word)) NULL)"
    by (simp_all add: s')
qed

subsection \<open>Executions of the FIFO\<close>

lemma fifo_run_append:
  "fifo_run n q (cs @ ds) =
     (case fifo_run n q cs of
        (q', rs) \<Rightarrow> (case fifo_run n q' ds of (q'', rs') \<Rightarrow> (q'', rs @ rs')))"
  by (induction cs arbitrary: q) (auto split: prod.splits)

lemma fifo_run_produces:
  "length q + length vs < n \<Longrightarrow>
     fifo_run n q (map Produce vs) = (q @ vs, map (\<lambda>_. Produced 0) vs)"
  by (induction vs arbitrary: q) auto

lemma fifo_run_consumes:
  "fifo_run n q (replicate (length q) Consume) = ([], map Consumed q)"
  by (induction q) auto

lemma fifo_run_batch:
  assumes "length q + length vs < n"
  shows "fifo_run n q (map Produce vs @ replicate (length q + length vs) Consume) =
           ([], map (\<lambda>_. Produced 0) vs @ map Consumed (q @ vs))"
proof -
  have "fifo_run n (q @ vs) (replicate (length (q @ vs)) Consume) = ([], map Consumed (q @ vs))"
    by (rule fifo_run_consumes)
  then show ?thesis
    using assms by (simp add: fifo_run_append fifo_run_produces)
qed

subsection \<open>What a call that returns has done\<close>

lemma produce_returns:
  assumes "mpmc_ptr_ring_produce s x = Some (Ok (s', rc))"
  shows "rc = - ENOSPC \<and> s' = s \<or>
         rc = 0 \<and> producer_tail (ring s) = producer_head (ring s) \<and>
         consumer_head (ring s') = consumer_head (ring s) \<and>
         producer_head (ring s') = producer_head (ring s) + 1 \<and>
         producer_tail (ring s') = producer_tail (ring s) + 1"
  using assms by (auto simp: produce_eq split: if_splits option.splits)

lemma consume_returns:
  assumes "mpmc_ptr_ring_consume s = Some (Ok (s', v))"
  shows "producer_tail (ring s) = consumer_head (ring s) \<and> s' = s \<and> v = NULL \<or>
         producer_tail (ring s) \<noteq> consumer_head (ring s) \<and>
         consumer_head (ring s') = consumer_head (ring s) + 1 \<and>
         producer_head (ring s') = producer_head (ring s) \<and>
         producer_tail (ring s') = producer_tail (ring s)"
  using assms by (auto simp: consume_eq split: if_splits option.splits)

lemma unat_Suc_word:
  fixes w :: "64 word"
  assumes "unat w < 2 ^ 64 - 1"
  shows "unat (w + 1) = Suc (unat w)"
proof -
  have "unat w + unat (1 :: 64 word) < 2 ^ LENGTH(64)" using assms by simp
  then have "unat (w + 1) = unat w + unat (1 :: 64 word)" by (simp only: unat_add_lem)
  then show ?thesis by simp
qed

lemma ring_wf_returns:
  assumes "ring_wf s"
  shows "\<exists>s' rc. mpmc_ptr_ring_produce s x = Some (Ok (s', rc))"
    and "\<exists>s' v. mpmc_ptr_ring_consume s = Some (Ok (s', v))"
proof -
  show "\<exists>s' rc. mpmc_ptr_ring_produce s x = Some (Ok (s', rc))"
    using produce_room [OF assms, of x] produce_full [OF assms, of x] by blast
  show "\<exists>s' v. mpmc_ptr_ring_consume s = Some (Ok (s', v))"
    using consume_nonempty [OF assms] consume_empty [of s] by blast
qed

subsection \<open>Peek\<close>

lemma peek_eq:
  "mpmc_ptr_ring_peek s =
     (if consumer_head (ring s) = producer_tail (ring s) then Ok (s, NULL)
      else case READ_ONCE (heap s) (queue (ring s))
                  (consumer_head (ring s) AND (size_r (ring s) - 1)) of
             None \<Rightarrow> Fault
           | Some e \<Rightarrow> Ok (s, e))"
  by (simp add: mpmc_ptr_ring_peek_def Let_def)

lemma ring_wf_slots_ok: "ring_wf s \<Longrightarrow> slots_ok s"
  by (simp add: ring_wf_def slots_ok_def)

lemma slots_ok_view:
  assumes "slots_ok s"
  obtains k xs where "k < 64" "size_r (ring s) = 2 ^ k"
    "heap s (queue (ring s)) = Some xs" "length xs = 2 ^ k" "slots s = xs"
    "unat (size_r (ring s) - 1) = 2 ^ k - 1"
proof -
  from assms obtain k where k: "k < 64" "size_r (ring s) = 2 ^ k"
    by (auto simp: slots_ok_def is_power_of_2_iff)
  from assms obtain xs where xs: "heap s (queue (ring s)) = Some xs"
    "length xs = unat (size_r (ring s))"
    by (auto simp: slots_ok_def split: option.splits)
  have "unat (size_r (ring s) - 1) = 2 ^ k - 1"
    using k by (simp add: unat_minus_one unat_2p)
  moreover have "slots s = xs" using xs by (simp add: slots_def)
  moreover have "length xs = 2 ^ k" using xs k by (simp add: unat_2p)
  ultimately show ?thesis using that k xs by simp
qed

lemma head_slot_ok:
  assumes "slots_ok s"
  shows "READ_ONCE (heap s) (queue (ring s))
           (consumer_head (ring s) AND (size_r (ring s) - 1)) =
         Some (slots s ! (unat (consumer_head (ring s)) mod unat (size_r (ring s))))"
proof -
  from assms obtain k xs where v: "k < 64" "size_r (ring s) = 2 ^ k"
    "heap s (queue (ring s)) = Some xs" "length xs = 2 ^ k" "slots s = xs"
    by (rule slots_ok_view)
  have "unat ((consumer_head (ring s) + of_nat 0) AND (2 ^ k - 1)) =
        (unat (consumer_head (ring s)) + 0) mod 2 ^ k"
    using v(1) by (rule slot_index)
  then have i: "unat (consumer_head (ring s) AND (2 ^ k - 1)) =
                unat (consumer_head (ring s)) mod 2 ^ k"
    by simp
  then have "unat (consumer_head (ring s) AND (2 ^ k - 1)) < length xs" by (simp add: v)
  with i show ?thesis by (simp add: READ_ONCE_def v unat_2p)
qed

text \<open>
  A produce that returns does not touch the slot of \<^verbatim>\<open>consumer_head\<close> of a ring that
  holds a value, and the ring still holds a value after it.
\<close>

lemma produce_keeps_head:
  assumes ok: "slots_ok s"
    and ne: "consumer_head (ring s) \<noteq> producer_tail (ring s)"
    and run: "mpmc_ptr_ring_produce s x = Some (Ok (s', rc))"
  shows "slots_ok s' \<and> consumer_head (ring s') = consumer_head (ring s) \<and>
    size_r (ring s') = size_r (ring s) \<and>
    consumer_head (ring s') \<noteq> producer_tail (ring s') \<and>
    slots s' ! (unat (consumer_head (ring s)) mod unat (size_r (ring s))) =
    slots s ! (unat (consumer_head (ring s)) mod unat (size_r (ring s)))"
proof -
  from ok obtain k xs where v: "k < 64" "size_r (ring s) = 2 ^ k"
    "heap s (queue (ring s)) = Some xs" "length xs = 2 ^ k" "slots s = xs"
    "unat (size_r (ring s) - 1) = 2 ^ k - 1"
    by (rule slots_ok_view)
  define c where "c = consumer_head (ring s)"
  define h where "h = producer_head (ring s)"
  define n where "n = unat (h - c)"
  define idx where "idx = (unat c + n) mod 2 ^ k"
  show ?thesis
  proof (cases "h - c < size_r (ring s) - 1")
    case False
    with run have "s' = s" by (simp add: produce_eq h_def c_def)
    with ok ne show ?thesis by simp
  next
    case True
    have hh: "h = c + of_nat n" by (simp add: n_def)
    have widx: "unat (h AND (size_r (ring s) - 1)) = idx"
      unfolding idx_def hh v(2) using v(1) by (rule slot_index)
    have idx_lt: "idx < length xs" by (simp add: idx_def v)
    from True run widx idx_lt v(3) have th: "producer_tail (ring s) = h"
      and s': "s' = \<lparr>heap = (heap s)(queue (ring s) \<mapsto> xs[idx := x]),
                  ring = (ring s)\<lparr>producer_head := h + 1, producer_tail := h + 1\<rparr>\<rparr>"
      by (auto simp: produce_eq WRITE_ONCE_def h_def c_def split: if_splits)
    have nlt: "n < 2 ^ k - 1" using True v(6) by (simp add: word_less_nat_alt n_def)
    have "h - c \<noteq> 0" using ne th by (simp add: c_def)
    then have npos: "0 < n" by (simp add: n_def unat_gt_0)
    have "(unat c + 0) mod 2 ^ k \<noteq> idx"
    proof
      assume "(unat c + 0) mod 2 ^ k = idx"
      then have "0 = n" using nlt
        by (intro slot_index_inj [of 0 k n "unat c"]) (auto simp: idx_def)
      with npos show False by simp
    qed
    then have other: "xs[idx := x] ! (unat c mod 2 ^ k) = xs ! (unat c mod 2 ^ k)" by simp
    have "h + 1 - c \<noteq> 0"
    proof
      assume "h + 1 - c = 0"
      then have "h - c = - 1" by (simp add: algebra_simps eq_neg_iff_add_eq_0)
      with True show False by simp
    qed
    then have ne': "c \<noteq> h + 1" by auto
    have sl: "slots s' = xs[idx := x]" by (simp add: slots_def s')
    from ok have "slots_ok s'"
      using v idx_lt by (auto simp: slots_ok_def s')
    with ne' other sl v show ?thesis
      by (simp add: s' c_def unat_2p)
  qed
qed

lemma produces_keep_head:
  assumes "slots_ok s" "consumer_head (ring s) \<noteq> producer_tail (ring s)"
    and "run s (map Produce xs) = Some (Ok (s', rs))"
  shows "slots_ok s' \<and> consumer_head (ring s') = consumer_head (ring s) \<and>
    size_r (ring s') = size_r (ring s) \<and>
    consumer_head (ring s') \<noteq> producer_tail (ring s') \<and>
    slots s' ! (unat (consumer_head (ring s)) mod unat (size_r (ring s))) =
    slots s ! (unat (consumer_head (ring s)) mod unat (size_r (ring s)))"
  using assms
proof (induction xs arbitrary: s rs)
  case Nil
  then show ?case by simp
next
  case (Cons x xs)
  from Cons.prems(3) obtain s1 rc rs1 where
    p: "mpmc_ptr_ring_produce s x = Some (Ok (s1, rc))"
    and r: "run s1 (map Produce xs) = Some (Ok (s', rs1))"
    by (auto split: option.splits result.splits)
  from produce_keeps_head [OF Cons.prems(1,2) p]
  have k: "slots_ok s1" "consumer_head (ring s1) = consumer_head (ring s)"
    "size_r (ring s1) = size_r (ring s)"
    "consumer_head (ring s1) \<noteq> producer_tail (ring s1)"
    "slots s1 ! (unat (consumer_head (ring s)) mod unat (size_r (ring s))) =
     slots s ! (unat (consumer_head (ring s)) mod unat (size_r (ring s)))"
    by blast+
  from Cons.IH [OF k(1) k(4) r]
  have i: "slots_ok s'" "consumer_head (ring s') = consumer_head (ring s1)"
    "size_r (ring s') = size_r (ring s1)"
    "consumer_head (ring s') \<noteq> producer_tail (ring s')"
    "slots s' ! (unat (consumer_head (ring s1)) mod unat (size_r (ring s1))) =
     slots s1 ! (unat (consumer_head (ring s1)) mod unat (size_r (ring s1)))"
    by blast+
  from i(5) have "slots s' ! (unat (consumer_head (ring s)) mod unat (size_r (ring s))) =
     slots s1 ! (unat (consumer_head (ring s)) mod unat (size_r (ring s)))"
    by (simp only: k(2,3))
  with k i show ?case by simp
qed

lemma empty_iff_contents: "mpmc_ptr_ring_empty s \<longleftrightarrow> contents s = []"
  by (auto simp: mpmc_ptr_ring_empty_def contents_Nil_iff)

lemma peek_discard_consume:
  assumes "ring_wf s" "contents s \<noteq> []"
  shows "mpmc_ptr_ring_peek s = Ok (s, hd (contents s))"
    and "mpmc_ptr_ring_consume s = Some (Ok (mpmc_ptr_ring_discard_one s, hd (contents s)))"
proof -
  from assms(2) have ne: "consumer_head (ring s) \<noteq> producer_tail (ring s)"
    by (auto simp: contents_Nil_iff)
  with contents_Cons [OF assms] show "mpmc_ptr_ring_peek s = Ok (s, hd (contents s))"
    by (simp add: peek_eq)
  from ne contents_Cons [OF assms]
  show "mpmc_ptr_ring_consume s = Some (Ok (mpmc_ptr_ring_discard_one s, hd (contents s)))"
    by (auto simp: consume_eq mpmc_ptr_ring_discard_one_def)
qed

subsection \<open>Teardown\<close>

lemma consume_nonempty_state:
  assumes "ring_wf s" "contents s \<noteq> []"
  shows "mpmc_ptr_ring_consume s =
     Some (Ok (s\<lparr>ring := (ring s)\<lparr>consumer_head := consumer_head (ring s) + 1\<rparr>\<rparr>,
               hd (contents s)))"
  using assms contents_Cons [OF assms] by (simp add: consume_eq contents_Nil_iff)

lemma cleanup_drain_held:
  assumes "ring_wf s" "NULL \<notin> set (contents s)"
  shows "cleanup_drain d s w =
     Some (Ok (s\<lparr>ring := (ring s)\<lparr>consumer_head := producer_tail (ring s)\<rparr>\<rparr>,
               fold d (contents s) w))"
  using assms
proof (induction "contents s" arbitrary: s w)
  case Nil
  then have e: "contents s = []" by simp
  then have "producer_tail (ring s) = consumer_head (ring s)" by (simp add: contents_Nil_iff)
  then have "s\<lparr>ring := (ring s)\<lparr>consumer_head := producer_tail (ring s)\<rparr>\<rparr> = s" by simp
  with e show ?case
    by (subst cleanup_drain.simps) (simp add: consume_empty)
next
  case (Cons v vs)
  then have c: "contents s = v # vs" by simp
  then have ne: "contents s \<noteq> []" by simp
  define s1 where "s1 = s\<lparr>ring := (ring s)\<lparr>consumer_head := consumer_head (ring s) + 1\<rparr>\<rparr>"
  from consume_nonempty [OF Cons.prems(1) ne] consume_nonempty_state [OF Cons.prems(1) ne]
  have s1: "mpmc_ptr_ring_consume s = Some (Ok (s1, v))" "ring_wf s1" "contents s1 = vs"
    by (simp_all add: s1_def c)
  have v: "v \<noteq> NULL" using Cons.prems(2) c by auto
  have "NULL \<notin> set (contents s1)" using Cons.prems(2) c s1(3) by simp
  with Cons.hyps(1) [of s1 "d v w"] s1
  have "cleanup_drain d s1 (d v w) =
     Some (Ok (s1\<lparr>ring := (ring s1)\<lparr>consumer_head := producer_tail (ring s1)\<rparr>\<rparr>,
               fold d vs (d v w)))"
    by simp
  moreover have "s1\<lparr>ring := (ring s1)\<lparr>consumer_head := producer_tail (ring s1)\<rparr>\<rparr> =
                 s\<lparr>ring := (ring s)\<lparr>consumer_head := producer_tail (ring s)\<rparr>\<rparr>"
    by (simp add: s1_def)
  ultimately show ?case
    using s1(1) v c by (subst cleanup_drain.simps) simp
qed

lemma kfree_queue:
  assumes "ring_wf s"
  shows "kfree (heap s) (queue (ring s)) = Some ((heap s)(queue (ring s) := None))"
  using assms by (auto simp: ring_wf_def kfree_def split: option.splits)

section \<open>The race of concurrent consumers\<close>

subsection \<open>Counters and slots\<close>

lemma unat_of_nat_small:
  fixes w :: "64 word"
  assumes "j \<le> unat w"
  shows "unat (of_nat j :: 64 word) = j"
  using assms by (rule le_unat_uoi)

lemma consumed_counter:
  assumes "j \<le> length (contents s0)"
  shows "unat (producer_tail (ring s0) - (consumer_head (ring s0) + of_nat j)) =
         length (contents s0) - j"
proof -
  define w where "w = producer_tail (ring s0) - consumer_head (ring s0)"
  have j: "j \<le> unat w" using assms by (simp add: w_def)
  then have u: "unat (of_nat j :: 64 word) = j" by (rule unat_of_nat_small)
  with j have "(of_nat j :: 64 word) \<le> w" by (simp add: word_le_nat_alt)
  then have "unat (w - of_nat j) = unat w - unat (of_nat j :: 64 word)" by (rule unat_sub)
  moreover have "producer_tail (ring s0) - (consumer_head (ring s0) + of_nat j) = w - of_nat j"
    by (simp add: w_def)
  ultimately have "unat (producer_tail (ring s0) - (consumer_head (ring s0) + of_nat j)) =
      unat w - j"
    using u by (simp only:)
  then show ?thesis by (simp add: w_def)
qed

lemma counter_inj:
  assumes "j \<le> length (contents s0)" "k \<le> length (contents s0)"
    and "consumer_head (ring s0) + of_nat j = consumer_head (ring s0) + (of_nat k :: 64 word)"
  shows "j = k"
proof -
  have "length (contents s0) - j = length (contents s0) - k"
    using consumed_counter [OF assms(1)] consumed_counter [OF assms(2)] assms(3) by simp
  with assms(1,2) show ?thesis by simp
qed

lemma counter_tail:
  "consumer_head (ring s0) + of_nat (length (contents s0)) = producer_tail (ring s0)"
  by simp

lemma read_contents:
  assumes "ring_wf s" "j < length (contents s)"
  shows "READ_ONCE (heap s) (queue (ring s))
           ((consumer_head (ring s) + of_nat j) AND (size_r (ring s) - 1)) =
         Some (contents s ! j)"
proof -
  from assms(1) obtain k xs where v: "k < 64" "size_r (ring s) = 2 ^ k"
    "heap s (queue (ring s)) = Some xs" "length xs = 2 ^ k" "slots s = xs"
    by (rule ring_wf_view)
  have "unat ((consumer_head (ring s) + of_nat j) AND (2 ^ k - 1)) =
        (unat (consumer_head (ring s)) + j) mod 2 ^ k"
    using v(1) by (rule slot_index)
  then have "unat ((consumer_head (ring s) + of_nat j) AND (2 ^ k - 1)) < length xs"
    by (simp add: v)
  moreover have "contents s ! j =
      xs ! unat ((consumer_head (ring s) + of_nat j) AND (2 ^ k - 1))"
    using assms(2) by (simp add: contents_def v)
  ultimately show ?thesis by (simp add: READ_ONCE_def v)
qed

lemma consumed_fields [simp]:
  "heap (consumed s0 k) = heap s0"
  "queue (ring (consumed s0 k)) = queue (ring s0)"
  "size_r (ring (consumed s0 k)) = size_r (ring s0)"
  "producer_tail (ring (consumed s0 k)) = producer_tail (ring s0)"
  "producer_head (ring (consumed s0 k)) = producer_head (ring s0)"
  "consumer_head (ring (consumed s0 k)) = consumer_head (ring s0) + of_nat k"
  by (simp_all add: consumed_def)

lemma consumed_Suc:
  "(consumed s0 k)\<lparr>ring := (ring (consumed s0 k))\<lparr>consumer_head :=
      consumer_head (ring s0) + of_nat k + 1\<rparr>\<rparr> = consumed s0 (Suc k)"
  by (simp add: consumed_def add.assoc)

lemma consumed_same:
  "(consumed s0 k)\<lparr>ring := (ring (consumed s0 k))\<lparr>consumer_head :=
      consumer_head (ring s0) + of_nat k\<rparr>\<rparr> = consumed s0 k"
  by (simp add: consumed_def)

subsection \<open>One step of one thread\<close>

lemma local_inv_mono:
  assumes "local_inv s0 k pc" "k \<le> k'" "k' \<le> length (contents s0)"
  shows "local_inv s0 k' pc"
proof (cases pc)
  case None
  with assms show ?thesis by (simp add: local_inv_def)
next
  case (Some a)
  with assms show ?thesis
    by (cases a) (auto simp: local_inv_def intro: order_trans)
qed

lemma thread_step:
  assumes wf: "ring_wf s0" and nn: "NULL \<notin> set (contents s0)"
    and k: "k \<le> length (contents s0)"
    and inv: "local_inv s0 k (at t)"
    and step: "consumer_step (consumed s0 k) t = Some (Ok (s', t'))"
  shows "(s' = consumed s0 k \<and> local_inv s0 k (at t') \<and> holding t' = holding t \<and>
          rank s' t' < rank (consumed s0 k) t) \<or>
         (k < length (contents s0) \<and> s' = consumed s0 (Suc k) \<and>
          local_inv s0 (Suc k) (at t') \<and> holding t' = holding t @ [contents s0 ! k])"
proof (cases "at t")
  case None
  with step show ?thesis by simp
next
  case (Some pc)
  show ?thesis
  proof (cases pc)
    case ReadHead
    with Some step have "s' = consumed s0 k"
      "t' = \<lparr>at = Some (ReadTail (consumer_head (ring s0) + of_nat k)), received = received t\<rparr>"
      by auto
    with Some ReadHead show ?thesis
      by (auto simp: local_inv_def holding_def rank_def)
  next
    case (ReadTail c)
    with Some inv obtain j where j: "j \<le> k" "c = consumer_head (ring s0) + of_nat j"
      by (auto simp: local_inv_def)
    show ?thesis
    proof (cases "producer_tail (ring s0) = c")
      case True
      with Some ReadTail step have r: "s' = consumed s0 k"
        "t' = \<lparr>at = Some (Return NULL), received = received t\<rparr>"
        by auto
      from True j have eq: "consumer_head (ring s0) + of_nat j =
          consumer_head (ring s0) + (of_nat (length (contents s0)) :: 64 word)"
        by simp
      have "j = length (contents s0)"
        by (rule counter_inj [OF _ _ eq]) (use j(1) k in simp_all)
      with j(1) k have "k = length (contents s0)" by simp
      with r Some ReadTail show ?thesis
        by (auto simp: local_inv_def holding_def rank_def)
    next
      case False
      with Some ReadTail step have r: "s' = consumed s0 k"
        "t' = \<lparr>at = Some (ReadSlot c), received = received t\<rparr>"
        by auto
      from False j have "j \<noteq> length (contents s0)" by auto
      with j(1) k have "j < length (contents s0)" by simp
      with r j Some ReadTail show ?thesis
        by (auto simp: local_inv_def holding_def rank_def)
    qed
  next
    case (ReadSlot c)
    with Some inv obtain j where j: "j \<le> k" "j < length (contents s0)"
      "c = consumer_head (ring s0) + of_nat j"
      by (auto simp: local_inv_def)
    from read_contents [OF wf j(2)] j(3)
    have "READ_ONCE (heap s0) (queue (ring s0)) (c AND (size_r (ring s0) - 1)) =
          Some (contents s0 ! j)"
      by simp
    with Some ReadSlot step have r: "s' = consumed s0 k"
      "t' = \<lparr>at = Some (Cas c (contents s0 ! j)), received = received t\<rparr>"
      by auto
    with j Some ReadSlot show ?thesis
      by (auto simp: local_inv_def holding_def rank_def)
  next
    case (Cas c e)
    with Some inv obtain j where j: "j \<le> k" "j < length (contents s0)"
      "c = consumer_head (ring s0) + of_nat j" "e = contents s0 ! j"
      by (auto simp: local_inv_def)
    show ?thesis
    proof (cases "consumer_head (ring s0) + of_nat k = c")
      case True
      with j(3) have eq: "consumer_head (ring s0) + of_nat j =
          consumer_head (ring s0) + (of_nat k :: 64 word)"
        by simp
      have jk: "j = k"
        by (rule counter_inj [OF _ _ eq]) (use j(1) k in simp_all)
      from True Some Cas step have r:
        "s' = (consumed s0 k)\<lparr>ring := (ring (consumed s0 k))\<lparr>consumer_head :=
                consumer_head (ring s0) + of_nat k + 1\<rparr>\<rparr>"
        "t' = \<lparr>at = Some (Return e), received = received t\<rparr>"
        by (auto simp: atomic_long_cmpxchg_def)
      from r(1) have s': "s' = consumed s0 (Suc k)" by (simp only: consumed_Suc)
      from j(2,4) nn have "e \<noteq> NULL" by (metis nth_mem)
      with s' r(2) j jk Some Cas show ?thesis
        by (auto simp: local_inv_def holding_def)
    next
      case False
      with Some Cas step have r:
        "s' = (consumed s0 k)\<lparr>ring := (ring (consumed s0 k))\<lparr>consumer_head :=
                consumer_head (ring s0) + of_nat k\<rparr>\<rparr>"
        "t' = \<lparr>at = Some ReadHead, received = received t\<rparr>"
        by (auto simp: atomic_long_cmpxchg_def)
      from r(1) have s': "s' = consumed s0 k" by (simp only: consumed_same)
      with r(2) False Some Cas show ?thesis
        by (auto simp: local_inv_def holding_def rank_def)
    qed
  next
    case (Return x)
    show ?thesis
    proof (cases "x = NULL")
      case True
      with Some Return step have "s' = consumed s0 k"
        "t' = \<lparr>at = None, received = received t\<rparr>"
        by auto
      with True Some Return inv show ?thesis
        by (auto simp: local_inv_def holding_def rank_def)
    next
      case False
      with Some Return step have "s' = consumed s0 k"
        "t' = \<lparr>at = Some ReadHead, received = received t @ [x]\<rparr>"
        by auto
      with False Some Return inv show ?thesis
        by (auto simp: local_inv_def holding_def rank_def)
    qed
  qed
qed

subsection \<open>Steps of the system\<close>

lemma sum_list_map_update:
  fixes f :: "'a \<Rightarrow> nat"
  assumes "i < length xs"
  shows "sum_list (map f (xs[i := y])) + f (xs ! i) = sum_list (map f xs) + f y"
proof -
  have "sum_list (map f (take i xs @ y # drop (Suc i) xs)) + f (xs ! i) =
        sum_list (map f (take i xs @ xs ! i # drop (Suc i) xs)) + f y"
    by simp
  then show ?thesis
    using assms by (simp only: upd_conv_take_nth_drop id_take_nth_drop [symmetric])
qed

lemma mset_concat_map_update:
  assumes "i < length xs"
  shows "mset (concat (map h (xs[i := y]))) + mset (h (xs ! i)) =
         mset (concat (map h xs)) + mset (h y)"
proof -
  have "mset (concat (map h (take i xs @ y # drop (Suc i) xs))) + mset (h (xs ! i)) =
        mset (concat (map h (take i xs @ xs ! i # drop (Suc i) xs))) + mset (h y)"
    by simp
  then show ?thesis
    using assms by (simp only: upd_conv_take_nth_drop id_take_nth_drop [symmetric])
qed

lemma rank_le: "rank s t \<le> 9"
  by (simp add: rank_def split: option.splits consume_pc.splits)

lemma sum_rank_le: "sum_list (map (rank s) ts) \<le> 9 * length ts"
proof (induction ts)
  case Nil
  show ?case by simp
next
  case (Cons t ts)
  with rank_le [of s t] show ?case by simp
qed

lemma par_step_inv:
  assumes wf: "ring_wf s0" and nn: "NULL \<notin> set (contents s0)"
    and inv: "race_inv s0 cfg" and step: "par_step cfg cfg'"
  shows "race_inv s0 cfg' \<and> effort cfg' < effort cfg"
  using step
proof cases
  case (1 i ts s s' t')
  from inv 1(1) obtain k where k: "k \<le> length (contents s0)" "s = consumed s0 k"
    "mset (concat (map holding ts)) = mset (take k (contents s0))"
    "\<forall>t\<in>set ts. local_inv s0 k (at t)"
    by (auto simp: race_inv_def)
  from k(4) 1(3) have li: "local_inv s0 k (at (ts ! i))" by simp
  from 1(4) k(2) have st: "consumer_step (consumed s0 k) (ts ! i) = Some (Ok (s', t'))"
    by simp
  from thread_step [OF wf nn k(1) li st] consider
    (same) "s' = consumed s0 k" "local_inv s0 k (at t')" "holding t' = holding (ts ! i)"
      "rank s' t' < rank (consumed s0 k) (ts ! i)"
    | (advanced) "k < length (contents s0)" "s' = consumed s0 (Suc k)"
      "local_inv s0 (Suc k) (at t')" "holding t' = holding (ts ! i) @ [contents s0 ! k]"
    by blast
  then show ?thesis
  proof cases
    case same
    have "(map holding ts)[i := map holding ts ! i] = map holding ts"
      by (rule list_update_id)
    then have "map holding (ts[i := t']) = map holding ts"
      using same(3) 1(3) by (simp add: map_update)
    moreover have "\<forall>t\<in>set (ts[i := t']). local_inv s0 k (at t)"
      using k(4) same(2) set_update_subset_insert [of ts i t'] by auto
    ultimately have "race_inv s0 (s', ts[i := t'])"
      using k same(1) by (auto simp: race_inv_def)
    moreover have "sum_list (map (rank s') (ts[i := t'])) < sum_list (map (rank s') ts)"
      using sum_list_map_update [OF 1(3), of "rank s'" t'] same(1,4) by simp
    then have "effort (s', ts[i := t']) < effort (s, ts)"
      using same(1) k(2) by (simp add: effort_def)
    ultimately show ?thesis using 1(1,2) by simp
  next
    case advanced
    have k': "Suc k \<le> length (contents s0)" using advanced(1) by simp
    have "mset (concat (map holding (ts[i := t']))) + mset (holding (ts ! i)) =
          mset (concat (map holding ts)) + mset (holding t')"
      using 1(3) by (rule mset_concat_map_update)
    then have "mset (concat (map holding (ts[i := t']))) =
               mset (take k (contents s0)) + {#contents s0 ! k#}"
      using advanced(4) k(3) by simp
    then have m: "mset (concat (map holding (ts[i := t']))) = mset (take (Suc k) (contents s0))"
      using advanced(1) by (simp add: take_Suc_conv_app_nth)
    have "\<forall>t\<in>set ts. local_inv s0 (Suc k) (at t)"
      using k(4) k' local_inv_mono [of s0 k _ "Suc k"] by auto
    then have "\<forall>t\<in>set (ts[i := t']). local_inv s0 (Suc k) (at t)"
      using advanced(3) set_update_subset_insert [of ts i t'] by auto
    with m k' advanced(2) have "race_inv s0 (s', ts[i := t'])"
      by (auto simp: race_inv_def)
    moreover have "effort (s', ts[i := t']) < effort (s, ts)"
    proof -
      define W where "W = 9 * length ts + 1"
      define L where "L = length (contents s0)"
      define A where "A = (L - Suc k) * W"
      have a: "effort (s', ts[i := t']) = A + sum_list (map (rank s') (ts[i := t']))"
        using consumed_counter [OF k'] advanced(2)
        by (simp add: effort_def W_def L_def A_def)
      have b: "sum_list (map (rank s') (ts[i := t'])) < W"
        using sum_rank_le [of s' "ts[i := t']"] by (simp add: W_def)
      have "L - k = Suc (L - Suc k)" using advanced(1) by (simp add: L_def)
      then have "(L - k) * W = A + W" by (simp add: A_def)
      moreover have "effort (s, ts) = (L - k) * W + sum_list (map (rank s) ts)"
        using consumed_counter [OF k(1)] k(2) by (simp add: effort_def W_def L_def)
      ultimately have c: "effort (s, ts) = A + W + sum_list (map (rank s) ts)"
        by (simp only:)
      from a b c show ?thesis by linarith
    qed
    ultimately show ?thesis using 1(1,2) by simp
  qed
qed

lemma thread_progress:
  assumes wf: "ring_wf s0" and inv: "local_inv s0 k (at t)" and "at t \<noteq> None"
  shows "\<exists>s' t'. consumer_step (consumed s0 k) t = Some (Ok (s', t'))"
proof -
  from assms(3) obtain pc where pc: "at t = Some pc" by auto
  show ?thesis
  proof (cases pc)
    case (ReadSlot c)
    with pc inv obtain j where j: "j < length (contents s0)"
      "c = consumer_head (ring s0) + of_nat j"
      by (auto simp: local_inv_def)
    from read_contents [OF wf j(1)] j(2) pc ReadSlot show ?thesis by simp
  qed (use pc in \<open>auto simp: atomic_long_cmpxchg_def Let_def\<close>)
qed

lemma received_subset_holding:
  "mset (concat (map received ts)) \<subseteq># mset (concat (map holding ts))"
proof (induction ts)
  case Nil
  show ?case by simp
next
  case (Cons t ts)
  have "mset (received t) \<subseteq># mset (holding t)" by (simp add: holding_def)
  with Cons show ?case by (simp add: subset_mset.add_mono)
qed

lemma mset_take_subset: "mset (take k xs) \<subseteq># mset xs"
proof -
  have "mset xs = mset (take k xs) + mset (drop k xs)"
    by (simp flip: mset_append)
  then show ?thesis by simp
qed

lemma race_inv_init:
  "race_inv s0 (s0, consumers N)"
  unfolding race_inv_def
  by (rule exI [of _ 0]) (simp add: consumers_def consumed_def holding_def local_inv_def)

lemma effort_init:
  "effort (s0, consumers N) = length (contents s0) * (9 * N + 1) + 5 * N"
  by (simp add: effort_def consumers_def rank_def sum_list_replicate)

lemma race_steps:
  assumes wf: "ring_wf s0" and nn: "NULL \<notin> set (contents s0)"
    and run: "(par_step ^^ n) (s0, consumers N) cfg"
  shows "race_inv s0 cfg \<and> n + effort cfg \<le> effort (s0, consumers N) \<and>
         length (snd cfg) = N"
  using run
proof (induction n arbitrary: cfg)
  case 0
  then have "cfg = (s0, consumers N)" by simp
  then show ?case by (simp add: race_inv_init) (simp add: consumers_def)
next
  case (Suc n)
  from Suc.prems obtain mid where mid: "(par_step ^^ n) (s0, consumers N) mid"
    "par_step mid cfg"
    by auto
  from Suc.IH [OF mid(1)] have ih: "race_inv s0 mid"
    "n + effort mid \<le> effort (s0, consumers N)" "length (snd mid) = N"
    by simp_all
  from par_step_inv [OF wf nn ih(1) mid(2)] have "race_inv s0 cfg" "effort cfg < effort mid"
    by simp_all
  moreover from mid(2) ih(3) have "length (snd cfg) = N" by cases auto
  ultimately show ?case using ih(2) by simp
qed

subsection \<open>One call alone, and schedules\<close>

lemma consume_alone_eq:
  "consume_alone (Suc (Suc (Suc (Suc 0)))) s ReadHead = mpmc_ptr_ring_consume s"
  by (simp add: consume_eq atomic_long_cmpxchg_def Let_def split: option.splits)

lemma schedule_steps:
  "schedule js cfg = Some cfg' \<Longrightarrow> (par_step ^^ length js) cfg cfg'"
proof (induction js arbitrary: cfg)
  case Nil
  then show ?case by simp
next
  case (Cons i js)
  obtain s ts where cfg: "cfg = (s, ts)" by (cases cfg)
  from Cons.prems cfg obtain s' t' where
    st: "i < length ts" "consumer_step s (ts ! i) = Some (Ok (s', t'))"
      "schedule js (s', ts[i := t']) = Some cfg'"
    by (auto split: if_splits option.splits result.splits)
  from st(1,2) have "par_step (s, ts) (s', ts[i := t'])" by (rule par_step.intros)
  moreover from st(3) have "(par_step ^^ length js) (s', ts[i := t']) cfg'"
    by (rule Cons.IH)
  ultimately have "(par_step ^^ Suc (length js)) (s, ts) cfg'"
    by (rule relpowp_Suc_I2)
  with cfg show ?case by simp
qed

section \<open>The example states\<close>

lemma replicate_4: "replicate 4 x = [x, x, x, x]"
  by (simp add: eval_nat_numeral)

lemma init_unused_4: "mpmc_ptr_ring_init 4096 unused_ring 4 = (ring4, 0)"
  by (simp add: mpmc_ptr_ring_init_def unused_ring_def ring4_def is_power_of_2_def
        kcalloc_def replicate_4)

lemma ring4_wf: "ring_wf ring4"
  by (simp add: ring_wf_def ring4_def is_power_of_2_def)

lemma ring4_held_wf: "ring_wf ring4_held"
  by (simp add: ring_wf_def ring4_held_def is_power_of_2_def)

lemma ring4_contents: "contents ring4 = []" "contents ring4_held = [7]"
  by (simp_all add: contents_def ring4_def ring4_held_def slots_def)

lemma ring4_null_wf: "ring_wf ring4_null"
  by (simp add: ring_wf_def ring4_null_def is_power_of_2_def)

lemma ring4_null_contents: "contents ring4_null = [NULL, 7]"
  by (simp add: contents_def ring4_null_def slots_def upt_rec)

lemma ring4_fields:
  "size_r (ring ring4) = 4" "size_r (ring ring4_held) = 4"
  "consumer_head (ring ring4) = 0" "producer_tail (ring ring4) = 0"
  "producer_head (ring ring4) = 0"
  "consumer_head (ring ring4_held) = 0" "producer_tail (ring ring4_held) = 1"
  "producer_head (ring ring4_held) = 1"
  by (simp_all add: ring4_def ring4_held_def)

lemma ring4_produce: "mpmc_ptr_ring_produce ring4 7 = Some (Ok (ring4_held, 0))"
  by (simp add: produce_eq ring4_def ring4_held_def WRITE_ONCE_def)

lemma ring4_consume:
  "mpmc_ptr_ring_consume ring4_held =
     Some (Ok (ring4_held\<lparr>ring := (ring ring4_held)\<lparr>consumer_head := 1\<rparr>\<rparr>, 7))"
  by (simp add: consume_eq ring4_held_def READ_ONCE_def)

lemma size_examples:
  "\<not> (\<exists>k. sint (0 :: 32 word) = 2 ^ k)" "\<not> (\<exists>k. sint (3 :: 32 word) = 2 ^ k)"
  "\<not> (\<exists>k. sint (5 :: 32 word) = 2 ^ k)" "\<not> (\<exists>k. sint (- 4 :: 32 word) = 2 ^ k)"
  "\<exists>k. sint (1 :: 32 word) = 2 ^ k" "\<exists>k. sint (2 :: 32 word) = 2 ^ k"
  "\<exists>k. sint (4 :: 32 word) = 2 ^ k" "\<exists>k. sint (1024 :: 32 word) = 2 ^ k"
proof -
  have "\<not> is_power_of_2 (scast (0 :: 32 word))" "\<not> is_power_of_2 (scast (3 :: 32 word))"
    "\<not> is_power_of_2 (scast (5 :: 32 word))" "\<not> is_power_of_2 (scast (- 4 :: 32 word))"
    "is_power_of_2 (scast (1 :: 32 word))" "is_power_of_2 (scast (2 :: 32 word))"
    "is_power_of_2 (scast (4 :: 32 word))" "is_power_of_2 (scast (1024 :: 32 word))"
    by (simp_all add: is_power_of_2_def)
  then show
    "\<not> (\<exists>k. sint (0 :: 32 word) = 2 ^ k)" "\<not> (\<exists>k. sint (3 :: 32 word) = 2 ^ k)"
    "\<not> (\<exists>k. sint (5 :: 32 word) = 2 ^ k)" "\<not> (\<exists>k. sint (- 4 :: 32 word) = 2 ^ k)"
    "\<exists>k. sint (1 :: 32 word) = 2 ^ k" "\<exists>k. sint (2 :: 32 word) = 2 ^ k"
    "\<exists>k. sint (4 :: 32 word) = 2 ^ k" "\<exists>k. sint (1024 :: 32 word) = 2 ^ k"
    by (simp_all only: is_power_of_2_size not_False_eq_True)
qed

lemma unused_ring_fresh: "4096 \<noteq> NULL \<and> heap unused_ring 4096 = None"
  by (simp add: unused_ring_def)

lemma ring4_pair_wf: "ring_wf ring4_pair"
  by (simp add: ring_wf_def ring4_pair_def is_power_of_2_def)

lemma ring4_pair_contents: "contents ring4_pair = [7, 9]"
  by (simp add: contents_def ring4_pair_def slots_def upt_rec)

lemma consumers_2:
  "consumers 2 =
     [\<lparr>at = Some ReadHead, received = []\<rparr>, \<lparr>at = Some ReadHead, received = []\<rparr>]"
  by (simp add: consumers_def numeral_2_eq_2)

lemma ring4_pair_race:
  "schedule [0, 1, 0, 1, 0, 1, 0, 1, 0, 1, 0, 1, 0, 1, 0, 1, 0, 1, 0, 1, 0, 1, 0, 1]
     (ring4_pair, consumers 2) =
   Some (consumed ring4_pair 2,
         [\<lparr>at = None, received = [7]\<rparr>, \<lparr>at = None, received = [9]\<rparr>])"
  by (simp add: consumers_2 ring4_pair_def consumed_def READ_ONCE_def
        atomic_long_cmpxchg_def)

section \<open>The claims\<close>

text \<open>
  C1. In a sequential execution the ring is a FIFO queue. Every list of produce and
  consume calls on a well-formed ring returns, call by call, what the bounded FIFO of the
  spec returns from the values held, and leaves the FIFO's values in the ring. In
  particular, when the values \<open>vs\<close> fit, producing them in order and then consuming
  returns the values held before and then \<open>vs\<close>, in order, each once, and leaves the ring
  empty; on an idle ring, \<^verbatim>\<open>produce(v)\<close> followed by \<^verbatim>\<open>consume()\<close> returns \<open>v\<close>.
\<close>

theorem fifo_order:
  assumes "ring_wf s"
  shows "(\<exists>s'. run s cs =
            Some (Ok (s', snd (fifo_run (unat (size_r (ring s))) (contents s) cs))) \<and>
          ring_wf s' \<and>
          contents s' = fst (fifo_run (unat (size_r (ring s))) (contents s) cs)) \<and>
         (length (contents s) + length vs < unat (size_r (ring s)) \<longrightarrow>
          (\<exists>s'. run s (map Produce vs @
                       replicate (length (contents s) + length vs) Consume) =
             Some (Ok (s', map (\<lambda>_. Produced 0) vs @ map Consumed (contents s @ vs))) \<and>
           contents s' = []))"
proof (intro conjI impI)
  show "\<exists>s'. run s cs =
            Some (Ok (s', snd (fifo_run (unat (size_r (ring s))) (contents s) cs))) \<and>
          ring_wf s' \<and>
          contents s' = fst (fifo_run (unat (size_r (ring s))) (contents s) cs)"
    using run_refines_fifo [OF assms, of cs] by blast
next
  assume "length (contents s) + length vs < unat (size_r (ring s))"
  then have "fifo_run (unat (size_r (ring s))) (contents s)
       (map Produce vs @ replicate (length (contents s) + length vs) Consume) =
     ([], map (\<lambda>_. Produced 0) vs @ map Consumed (contents s @ vs))"
    by (rule fifo_run_batch)
  with run_refines_fifo [OF assms,
      of "map Produce vs @ replicate (length (contents s) + length vs) Consume"]
  show "\<exists>s'. run s (map Produce vs @
                       replicate (length (contents s) + length vs) Consume) =
             Some (Ok (s', map (\<lambda>_. Produced 0) vs @ map Consumed (contents s @ vs))) \<and>
           contents s' = []"
    by auto
qed

theorem fifo_order_witness:
  "ring_wf ring4 \<and>
   (\<exists>s'. run ring4 [Produce 7, Consume] = Some (Ok (s', [Produced 0, Consumed 7])))"
  using fifo_order [of ring4 "[Produce 7, Consume]" "[7]"]
  by (auto simp: ring4_wf ring4_contents ring4_fields)

text \<open>
  C2. A ring constructed with capacity \<open>C\<close> accepts exactly \<open>C - 1\<close> produce calls when no
  consume intervenes: they all return 0, and the next produce returns \<open>-ENOSPC\<close> and leaves
  the state as it is. When a value is held (\<open>C \<ge> 2\<close>), one consume then removes the oldest
  value, and the produce after it succeeds.
\<close>

theorem capacity_bound:
  assumes "mpmc_ptr_ring_init a s0 sz = (s, 0)"
    and "length vs = unat (size_r (ring s)) - 1"
  shows "\<exists>s1. run s (map Produce vs) = Some (Ok (s1, map (\<lambda>_. Produced 0) vs)) \<and>
           mpmc_ptr_ring_produce s1 x = Some (Ok (s1, - ENOSPC)) \<and>
           (vs \<noteq> [] \<longrightarrow>
              (\<exists>s2 s3. mpmc_ptr_ring_consume s1 = Some (Ok (s2, hd vs)) \<and>
                        mpmc_ptr_ring_produce s2 y = Some (Ok (s3, 0))))"
proof -
  from init_ok_wf [OF assms(1)] have wf: "ring_wf s" and emp: "contents s = []" by simp_all
  from wf obtain k where k: "k < 64" "size_r (ring s) = 2 ^ k" by (rule ring_wf_view)
  then have pos: "0 < unat (size_r (ring s))" by (simp add: unat_2p)
  with assms(2) emp have fits: "length (contents s) + length vs < unat (size_r (ring s))"
    by simp
  from run_refines_fifo [OF wf, of "map Produce vs"] fits emp
  obtain s1 where s1: "run s (map Produce vs) = Some (Ok (s1, map (\<lambda>_. Produced 0) vs))"
    "ring_wf s1" "size_r (ring s1) = size_r (ring s)" "contents s1 = vs"
    by (auto simp: fifo_run_produces)
  have "\<not> length (contents s1) < unat (size_r (ring s1)) - 1" using s1 assms(2) by simp
  with s1(2) have full: "mpmc_ptr_ring_produce s1 x = Some (Ok (s1, - ENOSPC))"
    by (rule produce_full)
  have "\<exists>s2 s3. mpmc_ptr_ring_consume s1 = Some (Ok (s2, hd vs)) \<and>
                mpmc_ptr_ring_produce s2 y = Some (Ok (s3, 0))" if ne: "vs \<noteq> []"
  proof -
    from ne s1 have "contents s1 \<noteq> []" by simp
    from consume_nonempty [OF s1(2) this] s1 obtain s2 where
      s2: "mpmc_ptr_ring_consume s1 = Some (Ok (s2, hd vs))" "ring_wf s2"
        "contents s2 = tl vs" "size_r (ring s2) = size_r (ring s)"
      by auto
    have "length (contents s2) < unat (size_r (ring s2)) - 1"
      using s2 ne assms(2) by (cases vs) simp_all
    from produce_room [OF s2(2) this, of y] s2(1) show ?thesis by blast
  qed
  with s1(1) full show ?thesis by blast
qed

theorem capacity_bound_witness:
  "\<exists>s1. run ring4 [Produce 1, Produce 2, Produce 3] =
           Some (Ok (s1, [Produced 0, Produced 0, Produced 0])) \<and>
        mpmc_ptr_ring_produce s1 4 = Some (Ok (s1, - ENOSPC)) \<and>
        (\<exists>s2 s3. mpmc_ptr_ring_consume s1 = Some (Ok (s2, 1)) \<and>
                  mpmc_ptr_ring_produce s2 5 = Some (Ok (s3, 0)))"
  using capacity_bound [of 4096 unused_ring 4 ring4 "[1, 2, 3]" 4 5]
  by (simp add: init_unused_4 ring4_fields)

text \<open>
  C3. The ordering \<open>consumer_head \<le> producer_tail \<le> producer_head\<close> of the counters read
  as unbounded integers, with \<open>producer_tail - consumer_head\<close> the number of values held,
  holds after a successful init with no value held; a produce that returns keeps it, with
  one more value when it returned 0, as long as \<open>producer_head\<close> does not wrap around; a
  consume that returns keeps it, with one value fewer unless none was held, and then the
  state is unchanged. Under the ordering the number is the number of slots between
  \<open>consumer_head\<close> and \<open>producer_tail\<close>. On a well-formed ring both calls return.
\<close>

theorem counter_order:
  "(mpmc_ptr_ring_init a s0 sz = (s, 0) \<longrightarrow> ring_order (ring s) 0) \<and>
   (ring_order (ring s) n \<and> unat (producer_head (ring s)) < 2 ^ 64 - 1 \<and>
    mpmc_ptr_ring_produce s x = Some (Ok (s', rc)) \<longrightarrow>
      ring_order (ring s') (if rc = 0 then n + 1 else n)) \<and>
   (ring_order (ring s) n \<and> mpmc_ptr_ring_consume s = Some (Ok (s'', v)) \<longrightarrow>
      (if n = 0 then s'' = s else ring_order (ring s'') (n - 1))) \<and>
   (ring_order (ring s) n \<longrightarrow> length (contents s) = n) \<and>
   (ring_wf s \<longrightarrow>
      (\<exists>t rc. mpmc_ptr_ring_produce s x = Some (Ok (t, rc))) \<and>
      (\<exists>t v. mpmc_ptr_ring_consume s = Some (Ok (t, v))))"
proof (intro conjI impI)
  assume "mpmc_ptr_ring_init a s0 sz = (s, 0)"
  from init_ok_wf(4-6) [OF this] show "ring_order (ring s) 0"
    by (simp add: ring_order_def)
next
  assume a: "ring_order (ring s) n \<and> unat (producer_head (ring s)) < 2 ^ 64 - 1 \<and>
    mpmc_ptr_ring_produce s x = Some (Ok (s', rc))"
  then have ord: "unat (consumer_head (ring s)) \<le> unat (producer_tail (ring s))"
    "unat (producer_tail (ring s)) \<le> unat (producer_head (ring s))"
    "unat (producer_tail (ring s)) - unat (consumer_head (ring s)) = n"
    and nowrap: "unat (producer_head (ring s)) < 2 ^ 64 - 1"
    by (simp_all add: ring_order_def)
  from a produce_returns [of s x s' rc] consider
    "rc = - ENOSPC" "s' = s"
    | "rc = 0" "producer_tail (ring s) = producer_head (ring s)"
      "consumer_head (ring s') = consumer_head (ring s)"
      "producer_head (ring s') = producer_head (ring s) + 1"
      "producer_tail (ring s') = producer_tail (ring s) + 1"
    by blast
  then show "ring_order (ring s') (if rc = 0 then n + 1 else n)"
  proof cases
    case 1
    with a show ?thesis by (simp add: ENOSPC_def)
  next
    case 2
    from nowrap have "unat (producer_head (ring s) + 1) = Suc (unat (producer_head (ring s)))"
      by (rule unat_Suc_word)
    with 2 ord show ?thesis by (simp add: ring_order_def)
  qed
next
  assume a: "ring_order (ring s) n \<and> mpmc_ptr_ring_consume s = Some (Ok (s'', v))"
  then have ord: "unat (consumer_head (ring s)) \<le> unat (producer_tail (ring s))"
    "unat (producer_tail (ring s)) \<le> unat (producer_head (ring s))"
    "unat (producer_tail (ring s)) - unat (consumer_head (ring s)) = n"
    by (simp_all add: ring_order_def)
  from a consume_returns [of s s'' v] consider
    "producer_tail (ring s) = consumer_head (ring s)" "s'' = s"
    | "producer_tail (ring s) \<noteq> consumer_head (ring s)"
      "consumer_head (ring s'') = consumer_head (ring s) + 1"
      "producer_head (ring s'') = producer_head (ring s)"
      "producer_tail (ring s'') = producer_tail (ring s)"
    by blast
  then show "if n = 0 then s'' = s else ring_order (ring s'') (n - 1)"
  proof cases
    case 1
    with ord show ?thesis by auto
  next
    case 2
    from 2(1) have "unat (producer_tail (ring s)) \<noteq> unat (consumer_head (ring s))"
      by (simp add: word_unat_eq_iff)
    with ord have lt: "unat (consumer_head (ring s)) < unat (producer_tail (ring s))"
      by simp
    moreover have "unat (producer_tail (ring s)) < 2 ^ 64"
      using unsigned_less [of "producer_tail (ring s)"] by simp
    ultimately have "unat (consumer_head (ring s)) < 2 ^ 64 - 1" by simp
    then have "unat (consumer_head (ring s) + 1) = Suc (unat (consumer_head (ring s)))"
      by (rule unat_Suc_word)
    with 2 ord lt show ?thesis by (auto simp: ring_order_def)
  qed
next
  assume "ring_order (ring s) n"
  then have "unat (consumer_head (ring s)) \<le> unat (producer_tail (ring s))"
    "unat (producer_tail (ring s)) - unat (consumer_head (ring s)) = n"
    by (simp_all add: ring_order_def)
  moreover from this(1) have "consumer_head (ring s) \<le> producer_tail (ring s)"
    by (simp only: word_le_nat_alt)
  then have "unat (producer_tail (ring s) - consumer_head (ring s)) =
      unat (producer_tail (ring s)) - unat (consumer_head (ring s))"
    by (rule unat_sub)
  ultimately show "length (contents s) = n" by simp
next
  assume "ring_wf s"
  then show "\<exists>t rc. mpmc_ptr_ring_produce s x = Some (Ok (t, rc))"
    by (rule ring_wf_returns)
next
  assume "ring_wf s"
  then show "\<exists>t v. mpmc_ptr_ring_consume s = Some (Ok (t, v))"
    by (rule ring_wf_returns)
qed

theorem counter_order_witness:
  "ring_order (ring ring4) 0 \<and> ring_order (ring ring4_held) 1 \<and>
   ring_order (ring (ring4_held\<lparr>ring := (ring ring4_held)\<lparr>consumer_head := 1\<rparr>\<rparr>)) 0 \<and>
   mpmc_ptr_ring_consume ring4 = Some (Ok (ring4, NULL)) \<and>
   length (contents ring4_held) = 1"
  using counter_order [of 4096 unused_ring 4 ring4 0 7 ring4_held 0 ring4 NULL]
    counter_order [of 4096 unused_ring 4 ring4_held 1 7 ring4_held 0
      "ring4_held\<lparr>ring := (ring ring4_held)\<lparr>consumer_head := 1\<rparr>\<rparr>" 7]
  by (simp add: init_unused_4 ring4_produce ring4_consume consume_empty ring4_contents
        ring4_fields)

text \<open>
  C4. \<open>N\<close> consumer threads, each calling consume until a call returns null, run
  interleaved on a well-formed ring that holds \<open>M\<close> values, none of them null, with no
  producer running. Every execution is finite (at most \<open>M (9 N + 1) + 5 N\<close> steps); at
  every moment the values the threads have received are values the ring held, none
  received more often than it was held; as long as a thread has not ended, the system can
  step; and when all threads have ended, the values received are the values the ring
  held, each of them received once by one thread: \<open>M\<close> calls of consume have returned a
  value.
\<close>

theorem consumers_race:
  assumes "ring_wf s0" and "NULL \<notin> set (contents s0)" and "0 < N"
    and "(par_step ^^ n) (s0, consumers N) (s, ts)"
  shows "n \<le> length (contents s0) * (9 * N + 1) + 5 * N \<and>
         mset (concat (map received ts)) \<subseteq># mset (contents s0) \<and>
         ((\<exists>t\<in>set ts. at t \<noteq> None) \<longrightarrow> (\<exists>cfg. par_step (s, ts) cfg)) \<and>
         ((\<forall>t\<in>set ts. at t = None) \<longrightarrow>
            mset (concat (map received ts)) = mset (contents s0) \<and>
            length (concat (map received ts)) = length (contents s0))"
proof (intro conjI impI)
  from race_steps [OF assms(1,2,4)]
  have inv: "race_inv s0 (s, ts)" and le: "n + effort (s, ts) \<le> effort (s0, consumers N)"
    and len: "length ts = N"
    by simp_all
  from inv obtain k where k: "k \<le> length (contents s0)" "s = consumed s0 k"
    "mset (concat (map holding ts)) = mset (take k (contents s0))"
    "\<forall>t\<in>set ts. local_inv s0 k (at t)"
    by (auto simp: race_inv_def)
  from le effort_init [of s0 N] show "n \<le> length (contents s0) * (9 * N + 1) + 5 * N"
    by linarith
  have "mset (concat (map received ts)) \<subseteq># mset (take k (contents s0))"
    using received_subset_holding [of ts] k(3) by simp
  then show "mset (concat (map received ts)) \<subseteq># mset (contents s0)"
    using mset_take_subset [of k "contents s0"] by (rule subset_mset.order_trans)
  {
    assume "\<exists>t\<in>set ts. at t \<noteq> None"
    then obtain i where i: "i < length ts" "at (ts ! i) \<noteq> None"
      by (auto simp: in_set_conv_nth)
    with k(4) have "local_inv s0 k (at (ts ! i))" by simp
    from thread_progress [OF assms(1) this i(2)] k(2) obtain s' t' where
      "consumer_step s (ts ! i) = Some (Ok (s', t'))"
      by auto
    with i(1) have "par_step (s, ts) (s', ts[i := t'])" by (rule par_step.intros)
    then show "\<exists>cfg. par_step (s, ts) cfg" ..
  }
  {
    assume ended: "\<forall>t\<in>set ts. at t = None"
    from len assms(3) obtain t where t: "t \<in> set ts" by (cases ts) auto
    with ended k(4) have "local_inv s0 k None" by force
    then have kM: "k = length (contents s0)" by (simp add: local_inv_def)
    from ended have "map holding ts = map received ts"
      by (simp add: holding_def)
    with k(3) kM show m: "mset (concat (map received ts)) = mset (contents s0)" by simp
    from m have "size (mset (concat (map received ts))) = size (mset (contents s0))"
      by (simp only:)
    then show "length (concat (map received ts)) = length (contents s0)"
      by (simp only: size_mset)
  }
qed

theorem consumers_race_witness:
  "ring_wf ring4_pair \<and>
   schedule [0, 1, 0, 1, 0, 1, 0, 1, 0, 1, 0, 1, 0, 1, 0, 1, 0, 1, 0, 1, 0, 1, 0, 1]
     (ring4_pair, consumers 2) =
   Some (consumed ring4_pair 2,
         [\<lparr>at = None, received = [7]\<rparr>, \<lparr>at = None, received = [9]\<rparr>]) \<and>
   mset (concat (map received
     [\<lparr>at = None, received = [7]\<rparr>, \<lparr>at = None, received = [9]\<rparr>])) =
   mset (contents ring4_pair) \<and>
   length (concat (map received
     [\<lparr>at = None, received = [7]\<rparr>, \<lparr>at = None, received = [9]\<rparr>])) =
   length (contents ring4_pair)"
proof -
  note run = schedule_steps [OF ring4_pair_race]
  have nn: "NULL \<notin> set (contents ring4_pair)" by (simp add: ring4_pair_contents)
  from consumers_race [OF ring4_pair_wf nn _ run] ring4_pair_wf ring4_pair_race
  show ?thesis by simp
qed

text \<open>
  C5. Init with a size that is not a power of two (0, 3, 5, a negative size, ...) returns
  \<open>-EINVAL\<close> and leaves the allocator and the ring structure as they were. Init with a
  power of two (1, 2, 4, 1024, ...) does not return \<open>-EINVAL\<close>, and returns 0 when the
  allocation succeeds.
\<close>

theorem capacity_validation:
  "(\<not> (\<exists>k. sint sz = 2 ^ k) \<longrightarrow> mpmc_ptr_ring_init a s sz = (s, - EINVAL)) \<and>
   ((\<exists>k. sint sz = 2 ^ k) \<longrightarrow>
      snd (mpmc_ptr_ring_init a s sz) \<noteq> - EINVAL \<and>
      (a \<noteq> NULL \<and> heap s a = None \<longrightarrow> snd (mpmc_ptr_ring_init a s sz) = 0))"
proof (intro conjI impI)
  assume "\<not> (\<exists>k. sint sz = 2 ^ k)"
  then have "\<not> is_power_of_2 (scast sz)" by (simp add: is_power_of_2_size)
  then show "mpmc_ptr_ring_init a s sz = (s, - EINVAL)" by (rule init_invalid)
next
  assume "\<exists>k. sint sz = 2 ^ k"
  then have "is_power_of_2 (scast sz)" by (simp add: is_power_of_2_size)
  then show "snd (mpmc_ptr_ring_init a s sz) \<noteq> - EINVAL"
    by (simp add: init_valid EINVAL_def ENOMEM_def)
next
  assume "\<exists>k. sint sz = 2 ^ k" and "a \<noteq> NULL \<and> heap s a = None"
  then show "snd (mpmc_ptr_ring_init a s sz) = 0"
    by (simp add: init_ok_iff is_power_of_2_size)
qed

theorem capacity_validation_witness:
  "mpmc_ptr_ring_init 4096 unused_ring 0 = (unused_ring, - EINVAL) \<and>
   mpmc_ptr_ring_init 4096 unused_ring 3 = (unused_ring, - EINVAL) \<and>
   mpmc_ptr_ring_init 4096 unused_ring 5 = (unused_ring, - EINVAL) \<and>
   mpmc_ptr_ring_init 4096 unused_ring (- 4) = (unused_ring, - EINVAL) \<and>
   snd (mpmc_ptr_ring_init 4096 unused_ring 1) = 0 \<and>
   snd (mpmc_ptr_ring_init 4096 unused_ring 2) = 0 \<and>
   snd (mpmc_ptr_ring_init 4096 unused_ring 4) = 0 \<and>
   snd (mpmc_ptr_ring_init 4096 unused_ring 1024) = 0"
proof -
  note bad = capacity_validation [THEN conjunct1, rule_format]
  note good = capacity_validation [THEN conjunct2, rule_format, THEN conjunct2, rule_format]
  show ?thesis
    by (intro conjI bad good size_examples unused_ring_fresh)
qed

text \<open>
  C6, as the code has it. The claim that teardown drains the ring whether or not a
  destructor is supplied, and calls a supplied destructor once for each value held, fails.
  With no destructor the ring that holds 7 is released with the value still counted as
  held: no consume is made. With a destructor, the ring that holds null and then 7 is
  released after no call of the destructor, with 7 still counted as held: the loop stops
  at the first null value it consumes.
\<close>

theorem cleanup_without_drain:
  "mpmc_ptr_ring_cleanup ring4_held None () =
     Some (Ok (ring4_held\<lparr>heap := Map.empty\<rparr>, ())) \<and>
   mpmc_ptr_ring_empty (ring4_held\<lparr>heap := Map.empty\<rparr>) = False \<and>
   mpmc_ptr_ring_cleanup ring4_null (Some record_call) [] =
     Some (Ok (\<lparr>heap = Map.empty, ring = (ring ring4_null)\<lparr>consumer_head := 1\<rparr>\<rparr>, [])) \<and>
   mpmc_ptr_ring_empty \<lparr>heap = Map.empty, ring = (ring ring4_null)\<lparr>consumer_head := 1\<rparr>\<rparr> =
     False"
proof -
  have "cleanup_drain record_call ring4_null [] =
      Some (Ok (ring4_null\<lparr>ring := (ring ring4_null)\<lparr>consumer_head := 1\<rparr>\<rparr>, []))"
    by (subst cleanup_drain.simps)
       (simp add: consume_eq READ_ONCE_def ring4_null_def)
  then show ?thesis
    by (simp add: mpmc_ptr_ring_cleanup_def kfree_def mpmc_ptr_ring_empty_def
          ring4_held_def ring4_null_def)
qed

text \<open>
  C6, amended. On a well-formed ring, teardown with a destructor, when none of the values
  held is null, consumes every value held, calls the destructor on each of them once, in
  the order they were enqueued, and then releases the slot array. Teardown with no
  destructor releases the slot array and consumes nothing.
\<close>

theorem cleanup_drains:
  assumes "ring_wf s"
  shows "(NULL \<notin> set (contents s) \<longrightarrow>
           mpmc_ptr_ring_cleanup s (Some d) w =
             Some (Ok (\<lparr>heap = (heap s)(queue (ring s) := None),
                        ring = (ring s)\<lparr>consumer_head := producer_tail (ring s)\<rparr>\<rparr>,
                       fold d (contents s) w))) \<and>
         mpmc_ptr_ring_cleanup s None w =
           Some (Ok (\<lparr>heap = (heap s)(queue (ring s) := None), ring = ring s\<rparr>, w))"
proof (intro conjI impI)
  assume "NULL \<notin> set (contents s)"
  with assms have "cleanup_drain d s w =
     Some (Ok (s\<lparr>ring := (ring s)\<lparr>consumer_head := producer_tail (ring s)\<rparr>\<rparr>,
               fold d (contents s) w))"
    by (rule cleanup_drain_held)
  with kfree_queue [OF assms]
  show "mpmc_ptr_ring_cleanup s (Some d) w =
             Some (Ok (\<lparr>heap = (heap s)(queue (ring s) := None),
                        ring = (ring s)\<lparr>consumer_head := producer_tail (ring s)\<rparr>\<rparr>,
                       fold d (contents s) w))"
    by (simp add: mpmc_ptr_ring_cleanup_def)
next
  from kfree_queue [OF assms]
  show "mpmc_ptr_ring_cleanup s None w =
           Some (Ok (\<lparr>heap = (heap s)(queue (ring s) := None), ring = ring s\<rparr>, w))"
    by (simp add: mpmc_ptr_ring_cleanup_def)
qed

theorem cleanup_drains_witness:
  "ring_wf ring4_held \<and>
   mpmc_ptr_ring_cleanup ring4_held (Some record_call) [] =
     Some (Ok (\<lparr>heap = Map.empty, ring = (ring ring4_held)\<lparr>consumer_head := 1\<rparr>\<rparr>, [7])) \<and>
   mpmc_ptr_ring_cleanup ring4_held None ([] :: ptr list) =
     Some (Ok (\<lparr>heap = Map.empty, ring = ring ring4_held\<rparr>, []))"
proof -
  have h: "(heap ring4_held)(queue (ring ring4_held) := None) = Map.empty"
    by (simp add: ring4_held_def)
  from cleanup_drains [OF ring4_held_wf, of record_call "[]"] ring4_contents
  show ?thesis
    by (simp add: ring4_held_wf h ring4_fields record_call_def)
qed

text \<open>
  C7, as the code has it. The claim that a failed allocation leaves the ring structure as
  it was before the call fails: init stores the size and resets the three counters before
  it allocates, and stores the null result in \<open>queue\<close>. A zeroed structure has size 4 after
  the failed call.
\<close>

theorem init_enomem_changes_ring:
  "snd (mpmc_ptr_ring_init NULL unused_ring 4) = - ENOMEM \<and>
   size_r (ring unused_ring) = 0 \<and>
   size_r (ring (fst (mpmc_ptr_ring_init NULL unused_ring 4))) = 4"
  by (simp add: mpmc_ptr_ring_init_def kcalloc_def is_power_of_2_def unused_ring_def)

text \<open>
  C7, amended. When init returns \<open>-ENOMEM\<close>, no slot array has been allocated: the
  allocator's state is as before the call. The ring structure has been overwritten: its
  size is the requested one, the three counters are 0 and \<open>queue\<close> is null.
\<close>

theorem init_enomem_state:
  assumes "snd (mpmc_ptr_ring_init a s sz) = - ENOMEM"
  shows "fst (mpmc_ptr_ring_init a s sz) =
           \<lparr>heap = heap s,
            ring = \<lparr>queue = NULL, size_r = scast sz, consumer_head = 0, producer_head = 0,
                    producer_tail = 0\<rparr>\<rparr>"
proof (cases "is_power_of_2 (scast sz)")
  case True
  with assms show ?thesis
    by (auto simp: init_valid ENOMEM_def split: if_splits)
next
  case False
  with assms show ?thesis by (simp add: init_invalid EINVAL_def ENOMEM_def)
qed

theorem init_enomem_state_witness:
  "snd (mpmc_ptr_ring_init NULL ring4_held 2) = - ENOMEM \<and>
   fst (mpmc_ptr_ring_init NULL ring4_held 2) =
     \<lparr>heap = heap ring4_held,
      ring = \<lparr>queue = NULL, size_r = 2, consumer_head = 0, producer_head = 0,
              producer_tail = 0\<rparr>\<rparr>"
proof -
  have "snd (mpmc_ptr_ring_init NULL ring4_held 2) = - ENOMEM"
    by (simp add: mpmc_ptr_ring_init_def kcalloc_def is_power_of_2_def)
  with init_enomem_state [of NULL ring4_held 2] show ?thesis by simp
qed

text \<open>
  C8, as the code has it. The claim that repeated peeks return the same result whenever
  no consume or discard intervenes fails on an empty ring: peek of the new ring of
  capacity 4 returns null, \<^verbatim>\<open>produce(7)\<close> succeeds, and the next peek returns 7.
\<close>

theorem peek_changes_after_produce:
  "mpmc_ptr_ring_peek ring4 = Ok (ring4, NULL) \<and>
   mpmc_ptr_ring_produce ring4 7 = Some (Ok (ring4_held, 0)) \<and>
   mpmc_ptr_ring_peek ring4_held = Ok (ring4_held, 7)"
  by (simp add: peek_eq produce_eq ring4_def ring4_held_def READ_ONCE_def WRITE_ONCE_def)

text \<open>
  C8, amended. Peek returns the state it was given, whatever that state is. When the size
  is a power of two and the slot array is live, whatever the counters are and also while
  a produce is in progress, it returns null when \<open>consumer_head\<close> equals \<open>producer_tail\<close>
  and otherwise the value of the slot \<open>consumer_head mod size\<close>. On a ring that holds a
  value, peek returns that same value again after any produce calls that have returned,
  as long as no consume or discard intervenes (on a well-formed ring the produce calls do
  return), and the consume that follows a peek of a value returns the value peeked. On a
  well-formed empty ring, peek returns null only until a produce succeeds: then it
  returns the value produced.
\<close>

theorem peek_frame:
  "(mpmc_ptr_ring_peek s = Fault \<or> (\<exists>v. mpmc_ptr_ring_peek s = Ok (s, v))) \<and>
   (slots_ok s \<longrightarrow>
      mpmc_ptr_ring_peek s =
        Ok (s, if consumer_head (ring s) = producer_tail (ring s) then NULL
               else slots s ! (unat (consumer_head (ring s)) mod unat (size_r (ring s))))) \<and>
   (slots_ok s \<and> consumer_head (ring s) \<noteq> producer_tail (ring s) \<and>
    run s (map Produce xs) = Some (Ok (s', rs)) \<longrightarrow>
      consumer_head (ring s') \<noteq> producer_tail (ring s') \<and>
      mpmc_ptr_ring_peek s' =
        Ok (s', slots s ! (unat (consumer_head (ring s)) mod unat (size_r (ring s))))) \<and>
   (ring_wf s \<longrightarrow> (\<exists>t rs. run s (map Produce xs) = Some (Ok (t, rs)))) \<and>
   (consumer_head (ring s) \<noteq> producer_tail (ring s) \<and> mpmc_ptr_ring_peek s = Ok (s, v) \<longrightarrow>
      mpmc_ptr_ring_consume s = Some (Ok (mpmc_ptr_ring_discard_one s, v))) \<and>
   (ring_wf s \<and> consumer_head (ring s) = producer_tail (ring s) \<and>
    mpmc_ptr_ring_produce s x = Some (Ok (s'', 0)) \<longrightarrow>
      mpmc_ptr_ring_peek s'' = Ok (s'', x))"
proof (intro conjI impI)
  show "mpmc_ptr_ring_peek s = Fault \<or> (\<exists>v. mpmc_ptr_ring_peek s = Ok (s, v))"
    by (simp add: peek_eq split: option.splits)
next
  assume "slots_ok s"
  from head_slot_ok [OF this]
  show "mpmc_ptr_ring_peek s =
        Ok (s, if consumer_head (ring s) = producer_tail (ring s) then NULL
               else slots s ! (unat (consumer_head (ring s)) mod unat (size_r (ring s))))"
    by (simp add: peek_eq)
next
  assume a: "slots_ok s \<and> consumer_head (ring s) \<noteq> producer_tail (ring s) \<and>
    run s (map Produce xs) = Some (Ok (s', rs))"
  then have "slots_ok s" "consumer_head (ring s) \<noteq> producer_tail (ring s)"
    "run s (map Produce xs) = Some (Ok (s', rs))"
    by simp_all
  from produces_keep_head [OF this]
  have k: "slots_ok s'" "consumer_head (ring s') = consumer_head (ring s)"
    "size_r (ring s') = size_r (ring s)"
    "consumer_head (ring s') \<noteq> producer_tail (ring s')"
    "slots s' ! (unat (consumer_head (ring s)) mod unat (size_r (ring s))) =
     slots s ! (unat (consumer_head (ring s)) mod unat (size_r (ring s)))"
    by blast+
  from k(4) show "consumer_head (ring s') \<noteq> producer_tail (ring s')" .
  from head_slot_ok [OF k(1)] k
  show "mpmc_ptr_ring_peek s' =
        Ok (s', slots s ! (unat (consumer_head (ring s)) mod unat (size_r (ring s))))"
    by (simp add: peek_eq)
next
  assume "ring_wf s"
  from run_refines_fifo [OF this, of "map Produce xs"]
  show "\<exists>t rs. run s (map Produce xs) = Some (Ok (t, rs))" by blast
next
  assume "consumer_head (ring s) \<noteq> producer_tail (ring s) \<and>
    mpmc_ptr_ring_peek s = Ok (s, v)"
  then show "mpmc_ptr_ring_consume s = Some (Ok (mpmc_ptr_ring_discard_one s, v))"
    by (auto simp: peek_eq consume_eq mpmc_ptr_ring_discard_one_def split: option.splits)
next
  assume a: "ring_wf s \<and> consumer_head (ring s) = producer_tail (ring s) \<and>
    mpmc_ptr_ring_produce s x = Some (Ok (s'', 0))"
  then have wf: "ring_wf s" and emp: "contents s = []"
    and p: "mpmc_ptr_ring_produce s x = Some (Ok (s'', 0))"
    by (simp_all add: contents_Nil_iff)
  have "length (contents s) < unat (size_r (ring s)) - 1"
  proof (rule ccontr)
    assume "\<not> length (contents s) < unat (size_r (ring s)) - 1"
    from produce_full [OF wf this, of x] p show False by (simp add: ENOSPC_def)
  qed
  from produce_room [OF wf this, of x] p emp
  have "ring_wf s''" "contents s'' = [x]" by auto
  with peek_discard_consume(1) [of s''] show "mpmc_ptr_ring_peek s'' = Ok (s'', x)"
    by simp
qed

theorem peek_frame_witness:
  "mpmc_ptr_ring_peek ring4_inflight = Ok (ring4_inflight, 7) \<and>
   mpmc_ptr_ring_peek ring4 = Ok (ring4, NULL) \<and>
   run ring4_held (map Produce [8, 9]) = Some (Ok (ring4_three, [Produced 0, Produced 0])) \<and>
   mpmc_ptr_ring_peek ring4_three = Ok (ring4_three, 7) \<and>
   mpmc_ptr_ring_consume ring4_held = Some (Ok (mpmc_ptr_ring_discard_one ring4_held, 7)) \<and>
   mpmc_ptr_ring_peek ring4_held = Ok (ring4_held, 7)"
proof -
  have ok: "slots_ok ring4_inflight" "slots_ok ring4" "slots_ok ring4_held"
    by (simp_all add: slots_ok_def ring4_inflight_def ring4_def ring4_held_def
          is_power_of_2_def)
  have sl: "slots ring4_inflight ! (unat (consumer_head (ring ring4_inflight)) mod
          unat (size_r (ring ring4_inflight))) = 7"
    "slots ring4_held ! (unat (consumer_head (ring ring4_held)) mod
          unat (size_r (ring ring4_held))) = 7"
    by (simp_all add: ring4_inflight_def ring4_held_def slots_def)
  have ne: "consumer_head (ring ring4_inflight) \<noteq> producer_tail (ring ring4_inflight)"
    "consumer_head (ring ring4_held) \<noteq> producer_tail (ring ring4_held)"
    "consumer_head (ring ring4) = producer_tail (ring ring4)"
    by (simp_all add: ring4_inflight_def ring4_held_def ring4_def)
  have r: "run ring4_held (map Produce [8, 9]) =
      Some (Ok (ring4_three, [Produced 0, Produced 0]))"
    by (simp add: produce_eq WRITE_ONCE_def ring4_held_def ring4_three_def)
  from peek_frame [of ring4_inflight] ok(1) sl(1) ne(1)
  have a: "mpmc_ptr_ring_peek ring4_inflight = Ok (ring4_inflight, 7)" by simp
  from peek_frame [of ring4] ok(2) ne(3)
  have b: "mpmc_ptr_ring_peek ring4 = Ok (ring4, NULL)" by simp
  from peek_frame [of ring4_held "[8, 9]" ring4_three "[Produced 0, Produced 0]"]
    ok(3) sl(2) ne(2) r
  have c: "mpmc_ptr_ring_peek ring4_three = Ok (ring4_three, 7)"
    and d: "mpmc_ptr_ring_peek ring4_held = Ok (ring4_held, 7)"
    by simp_all
  from peek_frame [of ring4_held _ _ _ 7] ne(2) d
  have e: "mpmc_ptr_ring_consume ring4_held =
      Some (Ok (mpmc_ptr_ring_discard_one ring4_held, 7))"
    by simp
  from peek_frame [of ring4 _ _ _ _ 7 ring4_held] ring4_wf ne(3) ring4_produce
  have f: "mpmc_ptr_ring_peek ring4_held = Ok (ring4_held, 7)" by simp
  from a b r c e f show ?thesis by simp
qed

text \<open>
  C9. Produce does not look at the value: with room, enqueuing the null pointer returns 0,
  as enqueuing any value \<open>x\<close> does, and appends it to the values held. The consume that finds it at the front removes it
  and returns null, which is also what consume returns, changing nothing, on an empty
  ring.
\<close>

theorem null_element:
  "(ring_wf s \<and> length (contents s) < unat (size_r (ring s)) - 1 \<longrightarrow>
      (\<exists>s'. mpmc_ptr_ring_produce s NULL = Some (Ok (s', 0)) \<and> ring_wf s' \<and>
            contents s' = contents s @ [NULL]) \<and>
      (\<exists>s'. mpmc_ptr_ring_produce s x = Some (Ok (s', 0)))) \<and>
   (ring_wf s \<and> contents s = NULL # vs \<longrightarrow>
      (\<exists>s'. mpmc_ptr_ring_consume s = Some (Ok (s', NULL)) \<and> contents s' = vs \<and>
            consumer_head (ring s') = consumer_head (ring s) + 1)) \<and>
   (ring_wf s \<and> contents s = [] \<longrightarrow> mpmc_ptr_ring_consume s = Some (Ok (s, NULL)))"
proof (intro conjI impI)
  assume "ring_wf s \<and> length (contents s) < unat (size_r (ring s)) - 1"
  then have "ring_wf s" "length (contents s) < unat (size_r (ring s)) - 1" by simp_all
  from produce_room [OF this, of NULL]
  show "\<exists>s'. mpmc_ptr_ring_produce s NULL = Some (Ok (s', 0)) \<and> ring_wf s' \<and>
            contents s' = contents s @ [NULL]"
    by blast
next
  assume "ring_wf s \<and> length (contents s) < unat (size_r (ring s)) - 1"
  then have "ring_wf s" "length (contents s) < unat (size_r (ring s)) - 1" by simp_all
  from produce_room [OF this, of x]
  show "\<exists>s'. mpmc_ptr_ring_produce s x = Some (Ok (s', 0))"
    by blast
next
  assume a: "ring_wf s \<and> contents s = NULL # vs"
  then have "ring_wf s" "contents s \<noteq> []" by simp_all
  from consume_nonempty [OF this] a
  show "\<exists>s'. mpmc_ptr_ring_consume s = Some (Ok (s', NULL)) \<and> contents s' = vs \<and>
            consumer_head (ring s') = consumer_head (ring s) + 1"
    by auto
next
  assume "ring_wf s \<and> contents s = []"
  then show "mpmc_ptr_ring_consume s = Some (Ok (s, NULL))" by (simp add: consume_empty)
qed

theorem null_element_witness:
  "(\<exists>s'. mpmc_ptr_ring_produce ring4 NULL = Some (Ok (s', 0)) \<and> contents s' = [NULL]) \<and>
   (\<exists>s'. mpmc_ptr_ring_consume ring4_null = Some (Ok (s', NULL)) \<and> contents s' = [7] \<and>
         consumer_head (ring s') = 1) \<and>
   mpmc_ptr_ring_consume ring4 = Some (Ok (ring4, NULL))"
proof -
  have f: "consumer_head (ring ring4_null) = 0" by (simp add: ring4_null_def)
  from null_element [of ring4 7 "[]"] null_element [of ring4_null 7 "[7]"]
    ring4_wf ring4_null_wf ring4_contents ring4_null_contents
  show ?thesis by (simp add: ring4_fields f) blast
qed

text \<open>
  C10. Init with size 1 succeeds when the allocation does. On a ring of size 1 every
  produce returns \<open>-ENOSPC\<close> and changes nothing, whatever the counters are: the room
  test compares with \<open>size - 1 = 0\<close>. Such a ring holds no value, and no sequence of
  produce and consume calls changes it.
\<close>

theorem capacity_one:
  "(a \<noteq> NULL \<and> heap s0 a = None \<longrightarrow>
      snd (mpmc_ptr_ring_init a s0 1) = 0 \<and>
      ring_wf (fst (mpmc_ptr_ring_init a s0 1)) \<and>
      size_r (ring (fst (mpmc_ptr_ring_init a s0 1))) = 1) \<and>
   (size_r (ring s) = 1 \<longrightarrow> mpmc_ptr_ring_produce s x = Some (Ok (s, - ENOSPC))) \<and>
   (ring_wf s \<and> size_r (ring s) = 1 \<longrightarrow>
      contents s = [] \<and> (\<exists>rs. run s cs = Some (Ok (s, rs))))"
proof (intro conjI impI)
  have p: "is_power_of_2 (scast (1 :: 32 word))" by (simp add: is_power_of_2_def)
  assume a: "a \<noteq> NULL \<and> heap s0 a = None"
  with p show ok: "snd (mpmc_ptr_ring_init a s0 1) = 0" by (simp add: init_ok_iff)
  then have "mpmc_ptr_ring_init a s0 1 = (fst (mpmc_ptr_ring_init a s0 1), 0)"
    by (metis prod.collapse)
  from init_ok_wf(1,3) [OF this]
  show "ring_wf (fst (mpmc_ptr_ring_init a s0 1))"
    "size_r (ring (fst (mpmc_ptr_ring_init a s0 1))) = 1"
    by simp_all
next
  assume "size_r (ring s) = 1"
  then show "mpmc_ptr_ring_produce s x = Some (Ok (s, - ENOSPC))"
    by (simp add: produce_eq)
next
  assume a: "ring_wf s \<and> size_r (ring s) = 1"
  then have wf: "ring_wf s" and one: "size_r (ring s) = 1" by simp_all
  from wf have "producer_tail (ring s) - consumer_head (ring s) \<le> size_r (ring s) - 1"
    by (simp add: ring_wf_def)
  with one have "producer_tail (ring s) - consumer_head (ring s) \<le> 0" by simp
  then have "producer_tail (ring s) = consumer_head (ring s)" by simp
  then show emp: "contents s = []" by (simp add: contents_Nil_iff)
  show "\<exists>rs. run s cs = Some (Ok (s, rs))"
  proof (induction cs)
    case Nil
    show ?case by simp
  next
    case (Cons c cs)
    then obtain rs where rs: "run s cs = Some (Ok (s, rs))" ..
    show ?case
    proof (cases c)
      case (Produce y)
      with a rs show ?thesis by (simp add: produce_eq)
    next
      case Consume
      with emp rs show ?thesis by (simp add: consume_empty)
    qed
  qed
qed

theorem capacity_one_witness:
  "snd (mpmc_ptr_ring_init 4096 unused_ring 1) = 0 \<and>
   size_r (ring (fst (mpmc_ptr_ring_init 4096 unused_ring 1))) = 1 \<and>
   mpmc_ptr_ring_produce (fst (mpmc_ptr_ring_init 4096 unused_ring 1)) 7 =
     Some (Ok (fst (mpmc_ptr_ring_init 4096 unused_ring 1), - ENOSPC)) \<and>
   (\<exists>rs. run (fst (mpmc_ptr_ring_init 4096 unused_ring 1)) [Produce 7, Consume, Produce 8] =
      Some (Ok (fst (mpmc_ptr_ring_init 4096 unused_ring 1), rs)))"
proof -
  note inst = capacity_one [of 4096 unused_ring "fst (mpmc_ptr_ring_init 4096 unused_ring 1)" 7
      "[Produce 7, Consume, Produce 8]"]
  from inst unused_ring_fresh
  have a: "snd (mpmc_ptr_ring_init 4096 unused_ring 1) = 0"
    "ring_wf (fst (mpmc_ptr_ring_init 4096 unused_ring 1))"
    "size_r (ring (fst (mpmc_ptr_ring_init 4096 unused_ring 1))) = 1"
    by blast+
  from inst a show ?thesis by blast
qed

end
